theory Spec2Isabelle
  imports Main
begin

section \<open>JavaScript values used by the scraping core\<close>

text \<open>
  Strings are \<open>char list\<close>. The string primitives below are the ones the source calls:
  \<open>String.prototype.startsWith\<close>, \<open>includes\<close>, \<open>toLowerCase\<close>, \<open>trim\<close> and
  \<open>Array.prototype.join\<close>. Case mapping and whitespace are the ASCII ones.
\<close>

fun startsWith :: "string \<Rightarrow> string \<Rightarrow> bool" where
  "startsWith s [] = True"
| "startsWith [] (c # cs) = False"
| "startsWith (x # xs) (c # cs) = (x = c \<and> startsWith xs cs)"

fun str_includes :: "string \<Rightarrow> string \<Rightarrow> bool" where
  "str_includes [] sub = (sub = [])"
| "str_includes (x # xs) sub = (startsWith (x # xs) sub \<or> str_includes xs sub)"

fun join :: "string \<Rightarrow> string list \<Rightarrow> string" where
  "join sep [] = []"
| "join sep [x] = x"
| "join sep (x # y # ys) = x @ sep @ join sep (y # ys)"

text \<open>The decimal digits of a natural number, as string interpolation prints it.\<close>

definition digit_char :: "nat \<Rightarrow> char" where
  "digit_char d = ''0123456789'' ! d"

function nat_to_string :: "nat \<Rightarrow> string" where
  "nat_to_string n =
     (if n < 10 then [digit_char n] else nat_to_string (n div 10) @ [digit_char (n mod 10)])"
  by pat_completeness auto
termination
  by (relation "measure id") auto

section \<open>Event status and its transition table (StatusManager.ts)\<close>

datatype EventStatus = NEW | UPDATED | INACTIVE | IMPORTED

text \<open>The string value of each member of the \<open>EventStatus\<close> enum.\<close>

fun status_str :: "EventStatus \<Rightarrow> string" where
  "status_str NEW = ''new''"
| "status_str UPDATED = ''updated''"
| "status_str INACTIVE = ''inactive''"
| "status_str IMPORTED = ''imported''"

text \<open>The \<open>validTransitions\<close> record literal of \<open>validateStatusTransition\<close>.\<close>

fun validTransitions :: "EventStatus \<Rightarrow> EventStatus list" where
  "validTransitions NEW = [UPDATED, INACTIVE, IMPORTED]"
| "validTransitions UPDATED = [INACTIVE, IMPORTED]"
| "validTransitions INACTIVE = [IMPORTED]"
| "validTransitions IMPORTED = []"

record Validation =
  valid :: bool
  reason :: "string option"

definition validateStatusTransition :: "EventStatus \<Rightarrow> EventStatus \<Rightarrow> Validation" where
  "validateStatusTransition currentStatus newStatus =
     (let allowedTransitions = validTransitions currentStatus in
      if newStatus \<in> set allowedTransitions
      then \<lparr>valid = True, reason = None\<rparr>
      else \<lparr>valid = False,
            reason = Some (''Invalid transition from '' @ status_str currentStatus @ '' to ''
                           @ status_str newStatus @ ''. Allowed transitions: ''
                           @ join '', '' (map status_str allowedTransitions))\<rparr>)"

text \<open>
  The transition table as the specification writes it (section 3): the set of permitted
  (from, to) pairs.
\<close>

definition spec_transition_table :: "(EventStatus \<times> EventStatus) set" where
  "spec_transition_table =
     {(NEW, UPDATED), (NEW, INACTIVE), (NEW, IMPORTED),
      (UPDATED, INACTIVE), (UPDATED, IMPORTED),
      (INACTIVE, IMPORTED)}"

section \<open>Errors\<close>

text \<open>
  A thrown JavaScript value, as far as the core inspects it: the message, the optional
  \<open>code\<close> property and the optional \<open>response.status\<close>. A computation that may throw
  returns \<open>JSError + 'a\<close>, with \<open>Inl\<close> for the thrown error.
\<close>

record JSError =
  message :: string
  code :: "string option"
  response_status :: "int option"

definition Error :: "string \<Rightarrow> JSError" where
  "Error msg = \<lparr>message = msg, code = None, response_status = None\<rparr>"

section \<open>Circuit breaker (CircuitBreaker.ts)\<close>

datatype CircuitBreakerState = CLOSED | OPEN | HALF_OPEN

record CircuitBreakerConfig =
  failureThreshold :: int
  recoveryTimeout :: int
  monitoringPeriod :: int
  successThreshold :: int

text \<open>
  The private fields of the class. The counters start at 0 and are only incremented or
  reset, so they are naturals; times are milliseconds as \<open>Date.now()\<close> returns them.
\<close>

record CircuitBreaker =
  cb_name :: string
  config :: CircuitBreakerConfig
  state :: CircuitBreakerState
  failures :: nat
  successes :: nat
  lastFailureTime :: int
  failureTimes :: "int list"

definition new_CircuitBreaker :: "string \<Rightarrow> CircuitBreakerConfig \<Rightarrow> CircuitBreaker" where
  "new_CircuitBreaker nm cfg =
     \<lparr>cb_name = nm, config = cfg, state = CLOSED, failures = 0, successes = 0,
      lastFailureTime = 0, failureTimes = []\<rparr>"

text \<open>\<open>shouldAttemptReset\<close>; \<open>now\<close> is the value \<open>Date.now()\<close> returns there.\<close>

definition shouldAttemptReset :: "int \<Rightarrow> CircuitBreaker \<Rightarrow> bool" where
  "shouldAttemptReset now cb \<longleftrightarrow> now - lastFailureTime cb \<ge> recoveryTimeout (config cb)"

definition onSuccess :: "CircuitBreaker \<Rightarrow> CircuitBreaker" where
  "onSuccess cb =
     (let cb1 = cb\<lparr>failures := 0, failureTimes := []\<rparr> in
      if state cb1 = HALF_OPEN then
        (let cb2 = cb1\<lparr>successes := successes cb1 + 1\<rparr> in
         if int (successes cb2) \<ge> successThreshold (config cb2)
         then cb2\<lparr>state := CLOSED, successes := 0\<rparr>
         else cb2)
      else cb1)"

definition onFailure :: "int \<Rightarrow> CircuitBreaker \<Rightarrow> CircuitBreaker" where
  "onFailure now cb =
     (let cb1 = cb\<lparr>failures := failures cb + 1,
                    lastFailureTime := now,
                    failureTimes := filter (\<lambda>time. now - time \<le> monitoringPeriod (config cb))
                                      (failureTimes cb @ [now])\<rparr> in
      if state cb1 = HALF_OPEN then cb1\<lparr>state := OPEN, successes := 0\<rparr>
      else if state cb1 = CLOSED
              \<and> int (length (failureTimes cb1)) \<ge> failureThreshold (config cb1)
      then cb1\<lparr>state := OPEN\<rparr>
      else cb1)"

text \<open>
  The wrapped operation is a computation on the world outside the breaker: it takes the
  world \<open>w\<close> and returns its outcome and the world it leaves. An operation that is not
  invoked leaves the world as it was. \<open>invoke\<close> is the \<open>try\<close> block of \<open>execute\<close>;
  \<open>t_settle\<close> is the clock when the operation settles (read by \<open>onFailure\<close>).
\<close>

definition invoke ::
  "CircuitBreaker \<Rightarrow> ('w \<Rightarrow> (JSError + 'a) \<times> 'w) \<Rightarrow> int \<Rightarrow> 'w
     \<Rightarrow> (JSError + 'a) \<times> CircuitBreaker \<times> 'w" where
  "invoke cb operation t_settle w =
     (case operation w of
        (Inr result, w') \<Rightarrow> (Inr result, onSuccess cb, w')
      | (Inl error, w') \<Rightarrow> (Inl error, onFailure t_settle cb, w'))"

text \<open>\<open>execute\<close>; \<open>t_enter\<close> is the clock when the call is made.\<close>

definition execute ::
  "CircuitBreaker \<Rightarrow> ('w \<Rightarrow> (JSError + 'a) \<times> 'w) \<Rightarrow> int \<Rightarrow> int \<Rightarrow> 'w
     \<Rightarrow> (JSError + 'a) \<times> CircuitBreaker \<times> 'w" where
  "execute cb operation t_enter t_settle w =
     (if state cb = OPEN then
        (if shouldAttemptReset t_enter cb
         then invoke (cb\<lparr>state := HALF_OPEN\<rparr>) operation t_settle w
         else (Inl (Error (''Circuit breaker '' @ cb_name cb @ '' is OPEN'')), cb, w))
      else invoke cb operation t_settle w)"

definition reset :: "CircuitBreaker \<Rightarrow> CircuitBreaker" where
  "reset cb = cb\<lparr>state := CLOSED, failures := 0, successes := 0, lastFailureTime := 0,
                 failureTimes := []\<rparr>"

text \<open>
  A run of consecutive \<open>execute\<close> calls on one breaker with the same operation; each call
  is given by its two clock readings (at entry, at settling).
\<close>

fun execute_calls ::
  "CircuitBreaker \<Rightarrow> ('w \<Rightarrow> (JSError + 'a) \<times> 'w) \<Rightarrow> (int \<times> int) list \<Rightarrow> 'w
     \<Rightarrow> CircuitBreaker \<times> 'w" where
  "execute_calls cb operation [] w = (cb, w)"
| "execute_calls cb operation ((t_enter, t_settle) # calls) w =
     (case execute cb operation t_enter t_settle w of
        (r, cb', w') \<Rightarrow> execute_calls cb' operation calls w')"

definition always_fails :: "('w \<Rightarrow> (JSError + 'a) \<times> 'w) \<Rightarrow> bool" where
  "always_fails operation \<longleftrightarrow> (\<forall>w. isl (fst (operation w)))"

definition always_succeeds :: "('w \<Rightarrow> (JSError + 'a) \<times> 'w) \<Rightarrow> bool" where
  "always_succeeds operation \<longleftrightarrow> (\<forall>w. \<not> isl (fst (operation w)))"

text \<open>
  The failures of a run all lie in one monitoring window: no settling time is more than
  \<open>p\<close> milliseconds after an earlier (or the same) one.
\<close>

fun within_window :: "int \<Rightarrow> int list \<Rightarrow> bool" where
  "within_window p [] = True"
| "within_window p (t # ts) = (list_all (\<lambda>t'. t' - t \<le> p) (t # ts) \<and> within_window p ts)"

text \<open>The configuration \<open>scrapeSourceResilient\<close> (ScraperEngine.ts) creates its breakers with.\<close>

definition scraper_config :: CircuitBreakerConfig where
  "scraper_config = \<lparr>failureThreshold = 3, recoveryTimeout = 300000,
                      monitoringPeriod = 900000, successThreshold = 2\<rparr>"

text \<open>
  Auxiliary count for the proofs: the recorded failure times that stay inside the
  monitoring window of every settling time in \<open>ts\<close>.
\<close>

definition safe_count :: "int \<Rightarrow> int list \<Rightarrow> CircuitBreaker \<Rightarrow> nat" where
  "safe_count p ts cb = length (filter (\<lambda>t. list_all (\<lambda>t'. t' - t \<le> p) ts) (failureTimes cb))"

section \<open>The Event model (models/Event.ts)\<close>

text \<open>
  \<open>trim\<close> removes the ASCII white space of both ends; \<open>toLowerCase\<close> maps the ASCII capital
  letters; \<open>dedupe\<close> is \<open>[...new Set(xs)]\<close>, which keeps the first occurrence of each
  element in insertion order.
\<close>

definition is_space :: "char \<Rightarrow> bool" where
  "is_space c \<longleftrightarrow> c \<in> set [CHR '' '', CHR 0x09, CHR 0x0A, CHR 0x0B, CHR 0x0C, CHR 0x0D]"

definition trim :: "string \<Rightarrow> string" where
  "trim s = rev (dropWhile is_space (rev (dropWhile is_space s)))"

definition lower_char :: "char \<Rightarrow> char" where
  "lower_char c =
     (case map_of (zip ''ABCDEFGHIJKLMNOPQRSTUVWXYZ'' ''abcdefghijklmnopqrstuvwxyz'') c of
        Some l \<Rightarrow> l
      | None \<Rightarrow> c)"

definition toLowerCase :: "string \<Rightarrow> string" where
  "toLowerCase s = map lower_char s"

definition dedupe :: "'a list \<Rightarrow> 'a list" where
  "dedupe xs = fold (\<lambda>x acc. if x \<in> set acc then acc else acc @ [x]) xs []"

text \<open>
  The test \<open>/^https?:\/\/.+/.test(url)\<close> of the schema validators: the scheme, then at least
  one character that is not a line terminator.
\<close>

definition urlRegex_test :: "string \<Rightarrow> bool" where
  "urlRegex_test s =
     (let rest = (if startsWith s ''https://'' then drop 8 s
                  else if startsWith s ''http://'' then drop 7 s
                  else [])
      in case rest of [] \<Rightarrow> False | c # cs \<Rightarrow> c \<noteq> CHR 0x0A \<and> c \<noteq> CHR 0x0D)"

text \<open>
  \<open>EventData\<close> (types/index.ts): one scraped event. Dates are their \<open>getTime()\<close> value in
  milliseconds. An optional field that is absent or \<open>undefined\<close> is \<open>None\<close>.
\<close>

record EventData =
  title :: string
  dateTime :: int
  venueName :: string
  venueAddress :: "string option"
  city :: string
  description :: string
  categoryTags :: "string list"
  imageUrl :: "string option"
  sourceWebsite :: string
  originalEventUrl :: string
  lastScrapedAt :: int

text \<open>
  \<open>IEvent\<close>: a document of the \<open>events\<close> collection, the fields of \<open>EventData\<close> and the
  document's own. \<open>doc_id\<close> is the document's \<open>_id\<close>.
\<close>

record IEvent = EventData +
  doc_id :: nat
  status :: EventStatus
  importedAt :: "int option"
  importedBy :: "nat option"
  importNotes :: "string option"
  createdAt :: int
  updatedAt :: int

text \<open>
  \<open>new Event({...data, status})\<close>: the schema's \<open>trim: true\<close> setters run on every string path
  when it is set. The timestamps are written by \<open>save\<close>.
\<close>

definition new_Event :: "nat \<Rightarrow> EventData \<Rightarrow> EventStatus \<Rightarrow> IEvent" where
  "new_Event oid data st =
     \<lparr>title = trim (title data),
      dateTime = dateTime data,
      venueName = trim (venueName data),
      venueAddress = map_option trim (venueAddress data),
      city = trim (city data),
      description = trim (description data),
      categoryTags = categoryTags data,
      imageUrl = map_option trim (imageUrl data),
      sourceWebsite = trim (sourceWebsite data),
      originalEventUrl = trim (originalEventUrl data),
      lastScrapedAt = lastScrapedAt data,
      doc_id = oid,
      status = st,
      importedAt = None,
      importedBy = None,
      importNotes = None,
      createdAt = 0,
      updatedAt = 0\<rparr>"

text \<open>
  \<open>Object.assign(existing, {...updated, status: s, lastScrapedAt: new Date()})\<close> on a
  document: every path of \<open>updated\<close> is set through its setter, then the status and the
  scrape time.
\<close>

definition assign_event :: "IEvent \<Rightarrow> EventData \<Rightarrow> EventStatus \<Rightarrow> int \<Rightarrow> IEvent" where
  "assign_event existing updated st now =
     existing\<lparr>title := trim (title updated),
              dateTime := dateTime updated,
              venueName := trim (venueName updated),
              venueAddress := map_option trim (venueAddress updated),
              city := trim (city updated),
              description := trim (description updated),
              categoryTags := categoryTags updated,
              imageUrl := map_option trim (imageUrl updated),
              sourceWebsite := trim (sourceWebsite updated),
              originalEventUrl := trim (originalEventUrl updated),
              lastScrapedAt := now,
              status := st\<rparr>"

text \<open>
  The schema's validators, run by \<open>save\<close> before the \<open>pre("save")\<close> hook: the messages of
  the paths that fail, in schema order. A required string fails when it is empty.
\<close>

definition validate_event :: "IEvent \<Rightarrow> string list" where
  "validate_event d =
     (if title d = [] then [''title: Event title is required'']
      else if length (title d) > 200 then [''title: Title cannot exceed 200 characters'']
      else [])
     @ (if venueName d = [] then [''venueName: Venue name is required'']
        else if length (venueName d) > 150
        then [''venueName: Venue name cannot exceed 150 characters'']
        else [])
     @ (case venueAddress d of
          None \<Rightarrow> []
        | Some a \<Rightarrow> if length a > 300
                    then [''venueAddress: Venue address cannot exceed 300 characters'']
                    else [])
     @ (if city d = [] then [''city: Path city is required.''] else [])
     @ (if description d = [] then [''description: Event description is required'']
        else if length (description d) > 2000
        then [''description: Description cannot exceed 2000 characters'']
        else [])
     @ (if length (categoryTags d) \<le> 10 then []
        else [''categoryTags: Cannot have more than 10 category tags''])
     @ (case imageUrl d of
          None \<Rightarrow> []
        | Some u \<Rightarrow> if u = [] \<or> urlRegex_test u then []
                    else [''imageUrl: Image URL must be a valid HTTP/HTTPS URL''])
     @ (if sourceWebsite d = [] then [''sourceWebsite: Source website is required'']
        else if urlRegex_test (sourceWebsite d) then []
        else [''sourceWebsite: Source website must be a valid HTTP/HTTPS URL''])
     @ (if originalEventUrl d = [] then [''originalEventUrl: Original event URL is required'']
        else if urlRegex_test (originalEventUrl d) then []
        else [''originalEventUrl: Original event URL must be a valid HTTP/HTTPS URL''])
     @ (case importNotes d of
          None \<Rightarrow> []
        | Some n \<Rightarrow> if length n > 500
                    then [''importNotes: Import notes cannot exceed 500 characters'']
                    else [])"

text \<open>The \<open>pre("save")\<close> hook of the schema.\<close>

definition event_pre_save :: "IEvent \<Rightarrow> IEvent" where
  "event_pre_save d =
     (let d1 = (if city d = [] then d\<lparr>city := ''Sydney''\<rparr> else d) in
      if categoryTags d1 \<noteq> []
      then d1\<lparr>categoryTags := dedupe (map (\<lambda>tag. toLowerCase (trim tag)) (categoryTags d1))\<rparr>
      else d1)"

text \<open>
  The unique index on \<open>(originalEventUrl, sourceWebsite)\<close>: another document of the
  collection holds the same pair.
\<close>

definition duplicate_key :: "IEvent \<Rightarrow> IEvent list \<Rightarrow> bool" where
  "duplicate_key d db =
     list_ex (\<lambda>e. doc_id e \<noteq> doc_id d
                 \<and> originalEventUrl e = originalEventUrl d
                 \<and> sourceWebsite e = sourceWebsite d) db"

text \<open>A fresh \<open>ObjectId\<close>: one that no document of the collection has.\<close>

definition fresh_id :: "IEvent list \<Rightarrow> nat" where
  "fresh_id db = Suc (fold max (map doc_id db) 0)"

text \<open>
  \<open>document.save()\<close> on the collection \<open>db\<close> (the documents in insertion order): validation,
  the hook, the timestamps, the unique index, then the insert (a new document) or the
  replacement of the stored document with the same \<open>_id\<close>. The result is the error thrown
  (if any), the document in memory after the call, and the collection.
\<close>

definition event_save ::
  "int \<Rightarrow> bool \<Rightarrow> IEvent \<Rightarrow> IEvent list \<Rightarrow> JSError option \<times> IEvent \<times> IEvent list" where
  "event_save now isNew d db =
     (case validate_event d of
        m # ms \<Rightarrow> (Some (Error (''Event validation failed: '' @ join '', '' (m # ms))), d, db)
      | [] \<Rightarrow>
          (let d1 = event_pre_save d;
               d2 = (if isNew then d1\<lparr>createdAt := now, updatedAt := now\<rparr>
                     else d1\<lparr>updatedAt := now\<rparr>)
           in if duplicate_key d2 db
              then (Some (Error ''E11000 duplicate key error collection: events''), d2, db)
              else if isNew then (None, d2, db @ [d2])
              else (None, d2, map (\<lambda>e. if doc_id e = doc_id d2 then d2 else e) db)))"

section \<open>Status manager (StatusManager.ts)\<close>

record StatusChangeLog =
  eventId :: nat
  previousStatus :: EventStatus
  newStatus :: EventStatus
  change_reason :: string
  timestamp :: int
  metadata :: "(string \<times> string) list"

text \<open>
  \<open>ChangeDetectionResult\<close>. The documents in \<open>updatedEvents\<close> and \<open>inactiveEvents\<close> are
  the in-memory documents, as they are when \<open>processScrapedEvents\<close> returns.
\<close>

record ChangeDetectionResult =
  newEvents :: "EventData list"
  updatedEvents :: "(IEvent \<times> EventData) list"
  inactiveEvents :: "IEvent list"
  statusChanges :: "StatusChangeLog list"

text \<open>
  The state the scraping core works on: the \<open>events\<close> collection, the status manager's
  \<open>statusChangeLogs\<close>, the \<open>scrapingLogs\<close> collection (declared with the run log below)
  and the circuit breakers of the \<open>CircuitBreakerManager\<close>. It is polymorphic in the
  run-log documents so that the status manager can be read on its own.
\<close>

record 'l world =
  events_db :: "IEvent list"
  statusChangeLogs :: "StatusChangeLog list"
  scrapingLogs :: "'l list"
  circuitBreakers :: "string \<Rightarrow> CircuitBreaker option"

text \<open>
  \<open>detectEventChanges\<close>. \<open>value?.toString() || ""\<close> turns an absent optional field into
  the empty string.
\<close>

definition str_or_empty :: "string option \<Rightarrow> string" where
  "str_or_empty v = (case v of None \<Rightarrow> [] | Some s \<Rightarrow> s)"

definition detectEventChanges :: "IEvent \<Rightarrow> EventData \<Rightarrow> bool" where
  "detectEventChanges existing scraped =
     (if title existing \<noteq> title scraped then True
      else if dateTime existing \<noteq> dateTime scraped then True
      else if venueName existing \<noteq> venueName scraped then True
      else if str_or_empty (venueAddress existing) \<noteq> str_or_empty (venueAddress scraped)
      then True
      else if description existing \<noteq> description scraped then True
      else if str_or_empty (imageUrl existing) \<noteq> str_or_empty (imageUrl scraped) then True
      else if length (categoryTags existing) \<noteq> length (categoryTags scraped)
              \<or> \<not> list_all (\<lambda>(tag, other). tag = other)
                     (zip (categoryTags existing) (categoryTags scraped))
      then True
      else False)"

text \<open>
  The working state of one \<open>processScrapedEvents\<close> call. \<open>mem\<close> is the array
  \<open>existingEvents\<close>: the documents loaded from the collection, which the call mutates in
  memory; a reference to one of them is its index in the array. \<open>db\<close> is the collection,
  \<open>logs\<close> the manager's \<open>statusChangeLogs\<close>; the \<open>r_\<close> fields are the fields of \<open>result\<close>.
\<close>

record recon =
  mem :: "IEvent list"
  db :: "IEvent list"
  logs :: "StatusChangeLog list"
  r_newEvents :: "EventData list"
  r_updatedEvents :: "(nat \<times> EventData) list"
  r_inactiveEvents :: "nat list"
  r_statusChanges :: "StatusChangeLog list"

text \<open>
  \<open>existingEventMap\<close>: \<open>existingEvents.forEach(e => map.set(e.originalEventUrl, e))\<close>, a
  later document replacing an earlier one with the same URL.
\<close>

fun build_map :: "nat \<Rightarrow> IEvent list \<Rightarrow> (string \<rightharpoonup> nat) \<Rightarrow> (string \<rightharpoonup> nat)" where
  "build_map i [] m = m"
| "build_map i (e # es) m = build_map (Suc i) es (m(originalEventUrl e \<mapsto> i))"

definition existingEventMap :: "IEvent list \<Rightarrow> (string \<rightharpoonup> nat)" where
  "existingEventMap existing = build_map 0 existing Map.empty"

text \<open>
  The first loop of \<open>processScrapedEvents\<close> (new and updated events). The \<open>save\<close> of an
  unchanged document is not inside a \<open>try\<close> of its own: when it throws, the whole call
  throws, with the state reached so far.
\<close>

fun detect_changes ::
  "int \<Rightarrow> (string \<rightharpoonup> nat) \<Rightarrow> EventData list \<Rightarrow> recon \<Rightarrow> JSError option \<times> recon" where
  "detect_changes now emap [] st = (None, st)"
| "detect_changes now emap (scrapedEvent # rest) st =
     (case emap (originalEventUrl scrapedEvent) of
        None \<Rightarrow>
          detect_changes now emap rest (st\<lparr>r_newEvents := r_newEvents st @ [scrapedEvent]\<rparr>)
      | Some i \<Rightarrow>
          if detectEventChanges (mem st ! i) scrapedEvent
          then detect_changes now emap rest
                 (st\<lparr>r_updatedEvents := r_updatedEvents st @ [(i, scrapedEvent)]\<rparr>)
          else (case event_save now False ((mem st ! i)\<lparr>lastScrapedAt := now\<rparr>) (db st) of
                  (Some err, d', db') \<Rightarrow> (Some err, st\<lparr>mem := (mem st)[i := d'], db := db'\<rparr>)
                | (None, d', db') \<Rightarrow>
                    detect_changes now emap rest (st\<lparr>mem := (mem st)[i := d'], db := db'\<rparr>)))"

text \<open>The second loop (inactive events), over the indices of \<open>existingEvents\<close>.\<close>

definition detect_inactive :: "EventData list \<Rightarrow> IEvent list \<Rightarrow> nat list" where
  "detect_inactive scrapedEvents existing =
     filter (\<lambda>j. originalEventUrl (existing ! j) \<notin> set (map originalEventUrl scrapedEvents)
                \<and> status (existing ! j) \<noteq> INACTIVE
                \<and> status (existing ! j) \<noteq> IMPORTED)
       [0..<length existing]"

text \<open>
  \<open>applyStatusChanges\<close>, its three loops. An error of \<open>save\<close> is caught and logged, and the
  loop goes on with the next record.
\<close>

definition push_change :: "StatusChangeLog \<Rightarrow> recon \<Rightarrow> recon" where
  "push_change statusChange st =
     st\<lparr>r_statusChanges := r_statusChanges st @ [statusChange],
        logs := logs st @ [statusChange]\<rparr>"

fun apply_new :: "int \<Rightarrow> EventData list \<Rightarrow> recon \<Rightarrow> recon" where
  "apply_new now [] st = st"
| "apply_new now (newEventData # rest) st =
     (case event_save now True (new_Event (fresh_id (db st)) newEventData NEW) (db st) of
        (None, newEvent, db') \<Rightarrow>
          apply_new now rest
            (push_change
               \<lparr>eventId = doc_id newEvent, previousStatus = NEW, newStatus = NEW,
                change_reason = ''Event created from scraping'', timestamp = now,
                metadata = [(''sourceWebsite'', sourceWebsite newEventData)]\<rparr>
               (st\<lparr>db := db'\<rparr>))
      | (Some err, newEvent, db') \<Rightarrow> apply_new now rest st)"

fun apply_updated :: "int \<Rightarrow> (nat \<times> EventData) list \<Rightarrow> recon \<Rightarrow> recon" where
  "apply_updated now [] st = st"
| "apply_updated now ((i, updated) # rest) st =
     (let existing = mem st ! i;
          previousStatus = status existing
      in case event_save now False (assign_event existing updated UPDATED now) (db st) of
           (None, d', db') \<Rightarrow>
             apply_updated now rest
               (push_change
                  \<lparr>eventId = doc_id d', previousStatus = previousStatus, newStatus = UPDATED,
                   change_reason = ''Event data changed during scraping'', timestamp = now,
                   metadata = [(''sourceWebsite'', sourceWebsite updated)]\<rparr>
                  (st\<lparr>mem := (mem st)[i := d'], db := db'\<rparr>))
         | (Some err, d', db') \<Rightarrow>
             apply_updated now rest (st\<lparr>mem := (mem st)[i := d']\<rparr>))"

fun apply_inactive :: "int \<Rightarrow> nat list \<Rightarrow> recon \<Rightarrow> recon" where
  "apply_inactive now [] st = st"
| "apply_inactive now (j # rest) st =
     (let inactiveEvent = mem st ! j;
          previousStatus = status inactiveEvent
      in case event_save now False
                (inactiveEvent\<lparr>status := INACTIVE, lastScrapedAt := now\<rparr>) (db st) of
           (None, d', db') \<Rightarrow>
             apply_inactive now rest
               (push_change
                  \<lparr>eventId = doc_id d', previousStatus = previousStatus, newStatus = INACTIVE,
                   change_reason = ''Event no longer found on source website'',
                   timestamp = now,
                   metadata = [(''sourceWebsite'', sourceWebsite d')]\<rparr>
                  (st\<lparr>mem := (mem st)[j := d'], db := db'\<rparr>))
         | (Some err, d', db') \<Rightarrow>
             apply_inactive now rest (st\<lparr>mem := (mem st)[j := d']\<rparr>))"

definition applyStatusChanges :: "int \<Rightarrow> recon \<Rightarrow> recon" where
  "applyStatusChanges now st =
     apply_inactive now (r_inactiveEvents st)
       (apply_updated now (r_updatedEvents st)
          (apply_new now (r_newEvents st) st))"

definition result_of :: "recon \<Rightarrow> ChangeDetectionResult" where
  "result_of st =
     \<lparr>newEvents = r_newEvents st,
      updatedEvents = map (\<lambda>(i, updated). (mem st ! i, updated)) (r_updatedEvents st),
      inactiveEvents = map (\<lambda>j. mem st ! j) (r_inactiveEvents st),
      statusChanges = r_statusChanges st\<rparr>"

text \<open>
  \<open>processScrapedEvents\<close>; \<open>now\<close> is the clock during the call. \<open>Event.find({sourceWebsite})\<close>
  returns the documents of the source in collection order.
\<close>

definition processScrapedEvents ::
  "int \<Rightarrow> EventData list \<Rightarrow> string \<Rightarrow> 'l world
     \<Rightarrow> (JSError + ChangeDetectionResult) \<times> 'l world" where
  "processScrapedEvents now scrapedEvents source w =
     (let existingEvents = filter (\<lambda>e. sourceWebsite e = source) (events_db w);
          st0 = \<lparr>mem = existingEvents, db = events_db w, logs = statusChangeLogs w,
                 r_newEvents = [], r_updatedEvents = [], r_inactiveEvents = [],
                 r_statusChanges = []\<rparr>
      in case detect_changes now (existingEventMap existingEvents) scrapedEvents st0 of
           (Some err, st) \<Rightarrow>
             (Inl err, w\<lparr>events_db := db st, statusChangeLogs := logs st\<rparr>)
         | (None, st) \<Rightarrow>
             (let st1 = st\<lparr>r_inactiveEvents := detect_inactive scrapedEvents (mem st)\<rparr>;
                  st2 = applyStatusChanges now st1
              in (Inr (result_of st2),
                  w\<lparr>events_db := db st2, statusChangeLogs := logs st2\<rparr>)))"

text \<open>\<open>importEvent\<close>; the user is given by its \<open>ObjectId\<close>.\<close>

record ImportResult =
  success :: bool
  error :: "string option"

definition importEvent ::
  "int \<Rightarrow> nat \<Rightarrow> nat \<Rightarrow> string option \<Rightarrow> 'l world \<Rightarrow> ImportResult \<times> 'l world" where
  "importEvent now eid userId notes w =
     (case find (\<lambda>e. doc_id e = eid) (events_db w) of
        None \<Rightarrow> (\<lparr>success = False, error = Some ''Event not found''\<rparr>, w)
      | Some event \<Rightarrow>
          (let validation = validateStatusTransition (status event) IMPORTED in
           if \<not> valid validation then (\<lparr>success = False, error = reason validation\<rparr>, w)
           else
             (let previousStatus = status event;
                  e1 = event\<lparr>status := IMPORTED, importedAt := Some now,
                             importedBy := Some userId\<rparr>;
                  e2 = (case notes of
                          None \<Rightarrow> e1
                        | Some n \<Rightarrow> if n = [] then e1 else e1\<lparr>importNotes := Some (trim n)\<rparr>)
              in case event_save now False e2 (events_db w) of
                   (Some err, d', db') \<Rightarrow>
                     (\<lparr>success = False,
                       error = Some (''Error importing event: '' @ message err)\<rparr>, w)
                 | (None, d', db') \<Rightarrow>
                     (\<lparr>success = True, error = None\<rparr>,
                      w\<lparr>events_db := db',
                        statusChangeLogs := statusChangeLogs w @
                          [\<lparr>eventId = doc_id d', previousStatus = previousStatus,
                            newStatus = IMPORTED,
                            change_reason = ''Event manually imported by admin'',
                            timestamp = now,
                            metadata = [(''userId'', nat_to_string userId),
                                        (''importNotes'', str_or_empty notes)]\<rparr>]\<rparr>))))"

section \<open>Predicates of the reconciliation proofs\<close>

text \<open>
  \<open>untouched d mem0 st\<close>: the stored record \<open>d\<close> is still in the collection, the loaded
  documents still have the ids they were loaded with, and no status change has been
  recorded for \<open>d\<close>. \<open>other_index d mem0 i\<close>: \<open>i\<close> refers to a loaded document other than
  \<open>d\<close>. \<open>shape db0 st\<close>: the ids of the collection are still unique (if they were in
  \<open>db0\<close>), every stored document is one of \<open>db0\<close> or has a creation entry, and every
  creation entry records the pair (new, new).
\<close>

definition untouched :: "IEvent \<Rightarrow> IEvent list \<Rightarrow> recon \<Rightarrow> bool" where
  "untouched d mem0 st \<longleftrightarrow>
     d \<in> set (db st)
     \<and> map doc_id (mem st) = map doc_id mem0
     \<and> list_all (\<lambda>c. eventId c \<noteq> doc_id d) (r_statusChanges st)"

definition other_index :: "IEvent \<Rightarrow> IEvent list \<Rightarrow> nat \<Rightarrow> bool" where
  "other_index d mem0 i \<longleftrightarrow> i < length mem0 \<and> doc_id (mem0 ! i) \<noteq> doc_id d"

definition creation_entry :: "StatusChangeLog \<Rightarrow> bool" where
  "creation_entry c \<longleftrightarrow>
     change_reason c = ''Event created from scraping''
     \<and> previousStatus c = NEW \<and> newStatus c = NEW"

definition creation_pair :: "StatusChangeLog \<Rightarrow> bool" where
  "creation_pair c \<longleftrightarrow>
     (if change_reason c = ''Event created from scraping''
      then previousStatus c = NEW \<and> newStatus c = NEW else True)"

definition shape :: "IEvent list \<Rightarrow> recon \<Rightarrow> bool" where
  "shape db0 st \<longleftrightarrow>
     (if distinct (map doc_id db0) then distinct (map doc_id (db st)) else True)
     \<and> list_all (\<lambda>x. doc_id x \<in> doc_id ` set db0
                      \<or> list_ex (\<lambda>c. eventId c = doc_id x \<and> creation_entry c)
                           (r_statusChanges st)) (db st)
     \<and> list_all creation_pair (r_statusChanges st)"

section \<open>The run log (models/ScrapingLog.ts)\<close>

datatype LogStatus = Running | Completed | Failed

record ScrapingLog =
  log_id :: nat
  log_sourceWebsite :: string
  startTime :: int
  endTime :: "int option"
  eventsFound :: int
  eventsProcessed :: int
  log_scrapingErrors :: "string list"
  log_status :: LogStatus

text \<open>The schema's validators, run by \<open>save\<close> before the \<open>pre("save")\<close> hook.\<close>

definition validate_log :: "ScrapingLog \<Rightarrow> string list" where
  "validate_log l =
     (if log_sourceWebsite l = [] then [''sourceWebsite: Source website is required'']
      else if urlRegex_test (log_sourceWebsite l) then []
      else [''sourceWebsite: Source website must be a valid HTTP/HTTPS URL''])
     @ (if eventsFound l < 0 then [''eventsFound: Events found cannot be negative''] else [])
     @ (if eventsProcessed l < 0
        then [''eventsProcessed: Events processed cannot be negative''] else [])
     @ (if length (log_scrapingErrors l) \<le> 100 then []
        else [''scrapingErrors: Cannot store more than 100 error messages''])"

text \<open>
  The \<open>pre("save")\<close> hook: the error passed to \<open>next\<close> (if any) and the document as the
  hook leaves it. The hook sets a missing \<open>endTime\<close> of a completed or failed entry before
  it compares the two counts, so a save rejected for its counts leaves the end time set
  on the document in memory.
\<close>

definition log_pre_save :: "int \<Rightarrow> ScrapingLog \<Rightarrow> JSError option \<times> ScrapingLog" where
  "log_pre_save now l =
     (if (case endTime l of None \<Rightarrow> False | Some e \<Rightarrow> e < startTime l)
      then (Some (Error ''End time cannot be before start time''), l)
      else
        (let l1 = (if (log_status l = Completed \<or> log_status l = Failed) \<and> endTime l = None
                   then l\<lparr>endTime := Some now\<rparr> else l)
         in if eventsProcessed l1 > eventsFound l1
            then (Some (Error ''Events processed cannot exceed events found''), l1)
            else (None, l1)))"

text \<open>
  \<open>save\<close> on the \<open>scrapingLogs\<close> collection: the error thrown (if any), the document in
  memory after the call, and the collection. The validators run before the hook; a
  rejected save writes nothing.
\<close>

definition log_save ::
  "int \<Rightarrow> bool \<Rightarrow> ScrapingLog \<Rightarrow> ScrapingLog list
     \<Rightarrow> JSError option \<times> ScrapingLog \<times> ScrapingLog list" where
  "log_save now isNew l ldb =
     (case validate_log l of
        m # ms \<Rightarrow>
          (Some (Error (''ScrapingLog validation failed: '' @ join '', '' (m # ms))), l, ldb)
      | [] \<Rightarrow>
          (case log_pre_save now l of
             (Some err, l1) \<Rightarrow> (Some err, l1, ldb)
           | (None, l1) \<Rightarrow>
               if isNew then (None, l1, ldb @ [l1])
               else (None, l1, map (\<lambda>e. if log_id e = log_id l1 then l1 else e) ldb)))"

definition fresh_log_id :: "ScrapingLog list \<Rightarrow> nat" where
  "fresh_log_id ldb = Suc (fold max (map log_id ldb) 0)"

text \<open>The static \<open>createLog\<close> and the instance methods.\<close>

definition createLog ::
  "int \<Rightarrow> string \<Rightarrow> ScrapingLog list \<Rightarrow> JSError option \<times> ScrapingLog \<times> ScrapingLog list" where
  "createLog now src ldb =
     log_save now True
       \<lparr>log_id = fresh_log_id ldb, log_sourceWebsite = trim src, startTime = now,
        endTime = None, eventsFound = 0, eventsProcessed = 0, log_scrapingErrors = [],
        log_status = Running\<rparr> ldb"

definition addError ::
  "int \<Rightarrow> string \<Rightarrow> ScrapingLog \<Rightarrow> ScrapingLog list
     \<Rightarrow> JSError option \<times> ScrapingLog \<times> ScrapingLog list" where
  "addError now err l ldb =
     log_save now False
       (if length (log_scrapingErrors l) < 100 then l\<lparr>log_scrapingErrors := log_scrapingErrors l @ [err]\<rparr>
        else l) ldb"

definition markCompleted ::
  "int \<Rightarrow> int \<Rightarrow> int \<Rightarrow> ScrapingLog \<Rightarrow> ScrapingLog list
     \<Rightarrow> JSError option \<times> ScrapingLog \<times> ScrapingLog list" where
  "markCompleted now found processed l ldb =
     log_save now False
       (l\<lparr>log_status := Completed, endTime := Some now, eventsFound := found,
          eventsProcessed := processed\<rparr>) ldb"

text \<open>
  \<open>markFailed\<close> with a non-empty message calls \<open>addError\<close>, which starts a \<open>save\<close>, does
  not wait for it, and calls \<open>save\<close> again on the same document. Mongoose refuses a
  \<open>save\<close> of a document whose earlier \<open>save\<close> is still in progress: the second call
  rejects with a \<open>ParallelSaveError\<close>, and that is the promise \<open>markFailed\<close> returns. The
  first \<open>save\<close> goes on by itself: its write, if the validators and the hook accept the
  document, reaches the collection, and its own outcome is seen by nobody. With an empty
  message (\<open>if (error)\<close> is false) there is one \<open>save\<close>, the one returned.
\<close>

definition ParallelSaveError :: "ScrapingLog \<Rightarrow> JSError" where
  "ParallelSaveError l =
     Error (''Can't save() the same doc multiple times in parallel. Document: ''
            @ nat_to_string (log_id l))"

definition markFailed ::
  "int \<Rightarrow> string \<Rightarrow> ScrapingLog \<Rightarrow> ScrapingLog list
     \<Rightarrow> JSError option \<times> ScrapingLog \<times> ScrapingLog list" where
  "markFailed now err l ldb =
     (let l1 = l\<lparr>log_status := Failed, endTime := Some now\<rparr>
      in if err \<noteq> [] then
           (case addError now err l1 ldb of
              (unobserved, l2, ldb2) \<Rightarrow> (Some (ParallelSaveError l2), l2, ldb2))
         else log_save now False l1 ldb)"

text \<open>
  The two properties a stored run-log entry is to have: it has processed no more events
  than it found, and it has an end time once it is completed or failed.
\<close>

definition log_inv :: "ScrapingLog \<Rightarrow> bool" where
  "log_inv l \<longleftrightarrow>
     eventsProcessed l \<le> eventsFound l
     \<and> (if log_status l = Completed \<or> log_status l = Failed then endTime l \<noteq> None else True)"

text \<open>A run-log entry as \<open>createLog\<close> stores it, for the examples.\<close>

definition example_log :: ScrapingLog where
  "example_log =
     \<lparr>log_id = 1, log_sourceWebsite = ''https://example.com/events'', startTime = 1000,
      endTime = None, eventsFound = 0, eventsProcessed = 0, log_scrapingErrors = [],
      log_status = Running\<rparr>"

text \<open>
  The same entry completed with three events found and processed (before and after the
  hook has set its end time), completed with more events processed than found, and
  marked failed with the message "boom" at time 2000.
\<close>

definition completed_log :: ScrapingLog where
  "completed_log = example_log\<lparr>log_status := Completed, eventsFound := 3, eventsProcessed := 3\<rparr>"

definition overcounted_log :: ScrapingLog where
  "overcounted_log =
     example_log\<lparr>log_status := Completed, eventsFound := 3, eventsProcessed := 5\<rparr>"

definition failed_log :: ScrapingLog where
  "failed_log = example_log\<lparr>log_status := Failed, endTime := Some 2000,
                            log_scrapingErrors := [''boom'']\<rparr>"

text \<open>
  A run-log document that every later save accepts: it passes the validators, it has
  processed no more events than it found, and its end time is set and not before its
  start time.
\<close>

definition done_log :: "ScrapingLog \<Rightarrow> bool" where
  "done_log l \<longleftrightarrow>
     validate_log l = [] \<and> eventsProcessed l \<le> eventsFound l
     \<and> (case endTime l of None \<Rightarrow> False | Some t \<Rightarrow> startTime l \<le> t)"

section \<open>Error classification and retry (ErrorHandler.ts)\<close>

datatype ErrorCategory = NETWORK | PARSING | VALIDATION | TIMEOUT | RATE_LIMIT | UNKNOWN

datatype Severity = Low | Medium | High

record ScrapingError =
  se_message :: string
  se_url :: "string option"
  se_timestamp :: int

record CategorizedScrapingError = ScrapingError +
  category :: ErrorCategory
  retryable :: bool
  severity :: Severity

definition message_includes_some :: "JSError \<Rightarrow> string list \<Rightarrow> bool" where
  "message_includes_some err msgs = list_ex (str_includes (toLowerCase (message err))) msgs"

definition isNetworkError :: "JSError \<Rightarrow> bool" where
  "isNetworkError err \<longleftrightarrow>
     (case code err of
        None \<Rightarrow> False
      | Some c \<Rightarrow> c \<in> set [''ECONNREFUSED'', ''ENOTFOUND'', ''ECONNRESET'', ''ETIMEDOUT''])
     \<or> message_includes_some err [''network error'', ''connection failed'', ''dns lookup failed'']"

definition isTimeoutError :: "JSError \<Rightarrow> bool" where
  "isTimeoutError err \<longleftrightarrow>
     (case code err of
        None \<Rightarrow> False
      | Some c \<Rightarrow> c \<in> set [''ETIMEDOUT'', ''ESOCKETTIMEDOUT''])
     \<or> message_includes_some err [''timeout'', ''timed out'']"

definition isRateLimitError :: "JSError \<Rightarrow> bool" where
  "isRateLimitError err \<longleftrightarrow>
     message_includes_some err [''rate limit'', ''too many requests'', ''429'', ''throttled'']
     \<or> response_status err = Some 429"

definition isParsingError :: "JSError \<Rightarrow> bool" where
  "isParsingError err \<longleftrightarrow>
     message_includes_some err
       [''parsing error'', ''invalid html'', ''selector not found'', ''cheerio'']"

definition isValidationError :: "JSError \<Rightarrow> bool" where
  "isValidationError err \<longleftrightarrow>
     message_includes_some err
       [''validation error'', ''invalid data'', ''missing required'', ''invalid format'']"

definition categorizeError :: "int \<Rightarrow> JSError \<Rightarrow> string option \<Rightarrow> CategorizedScrapingError" where
  "categorizeError now err u =
     (let (c, r, s) =
        (if isNetworkError err then (NETWORK, True, High)
         else if isTimeoutError err then (TIMEOUT, True, Medium)
         else if isRateLimitError err then (RATE_LIMIT, True, High)
         else if isParsingError err then (PARSING, False, Low)
         else if isValidationError err then (VALIDATION, False, Low)
         else (UNKNOWN, False, Medium))
      in \<lparr>se_message = message err, se_url = u, se_timestamp = now,
          category = c, retryable = r, severity = s\<rparr>)"

text \<open>
  \<open>withRetry\<close>: the loop \<open>for (attempt = 0; attempt <= maxRetries; attempt++)\<close>, by the
  number of attempts that remain after this one. The waiting between two attempts changes
  nothing in the state.
\<close>

fun withRetry ::
  "('w \<Rightarrow> (JSError + 'a) \<times> 'w) \<Rightarrow> nat \<Rightarrow> int \<Rightarrow> 'w \<Rightarrow> (JSError + 'a) \<times> 'w" where
  "withRetry operation 0 now w = operation w"
| "withRetry operation (Suc remaining) now w =
     (case operation w of
        (Inr result, w') \<Rightarrow> (Inr result, w')
      | (Inl err, w') \<Rightarrow>
          if \<not> retryable (categorizeError now err None) then (Inl err, w')
          else withRetry operation remaining now w')"

section \<open>Source runner (ScraperEngine.ts)\<close>

record ScrapingSourceConfig =
  name :: string
  url :: string
  selectors :: "(string \<times> string) list"
  dateFormat :: "string option"
  baseUrl :: "string option"

record ScrapingResult =
  events :: "EventData list"
  scrapingErrors :: "ScrapingError list"
  sourceUrl :: string
  scrapedAt :: int

record EnhancedScrapingResult = ScrapingResult +
  changeDetection :: "ChangeDetectionResult option"

text \<open>
  What a scraping pass reads from outside the process: the answer of \<open>axios.get\<close> for a
  URL (the page, or the error thrown), the elements \<open>cheerio\<close> selects on a page with the
  source's \<open>eventContainer\<close> selector (or the error thrown while loading or selecting),
  the outcome of \<open>extractSingleEvent\<close> on one selected element (an error thrown for a
  missing field or an unreadable date, \<open>null\<close> for an event that fails
  \<open>validateEventData\<close>, or the event), and the clock.
\<close>

record ('html, 'el) env =
  axios_get :: "string \<Rightarrow> JSError + 'html"
  cheerio_select :: "'html \<Rightarrow> ScrapingSourceConfig \<Rightarrow> JSError + 'el list"
  extractSingleEvent :: "'el \<Rightarrow> ScrapingSourceConfig \<Rightarrow> JSError + EventData option"
  clock :: int

text \<open>\<open>extractEvents\<close>: the \<open>each\<close> loop with its \<open>try\<close> around every element.\<close>

fun extract_each ::
  "('html, 'el) env \<Rightarrow> ScrapingSourceConfig \<Rightarrow> nat \<Rightarrow> 'el list
     \<Rightarrow> EventData list \<times> ScrapingError list \<Rightarrow> EventData list \<times> ScrapingError list" where
  "extract_each e source index [] acc = acc"
| "extract_each e source index (element # rest) (evs, errs) =
     (case extractSingleEvent e element source of
        Inr (Some eventData) \<Rightarrow> extract_each e source (Suc index) rest (evs @ [eventData], errs)
      | Inr None \<Rightarrow> extract_each e source (Suc index) rest (evs, errs)
      | Inl err \<Rightarrow>
          extract_each e source (Suc index) rest
            (evs, errs @ [\<lparr>se_message = ''Error extracting event '' @ nat_to_string (index + 1)
                                        @ '' from '' @ name source @ '': '' @ message err,
                            se_url = Some (url source), se_timestamp = clock e\<rparr>]))"

definition extractEvents ::
  "('html, 'el) env \<Rightarrow> 'html \<Rightarrow> ScrapingSourceConfig
     \<Rightarrow> JSError + EventData list \<times> ScrapingError list" where
  "extractEvents e html source =
     (case cheerio_select e html source of
        Inl err \<Rightarrow> Inl err
      | Inr eventElements \<Rightarrow> Inr (extract_each e source 0 eventElements ([], [])))"

text \<open>\<open>scrapeSource\<close>: every error of the fetch and of the extraction is caught.\<close>

definition network_error_result ::
  "('html, 'el) env \<Rightarrow> ScrapingSourceConfig \<Rightarrow> JSError \<Rightarrow> ScrapingResult" where
  "network_error_result e source err =
     \<lparr>events = [],
      scrapingErrors = [\<lparr>se_message = ''Network error fetching '' @ url source @ '': ''
                                        @ message err,
                         se_url = Some (url source), se_timestamp = clock e\<rparr>],
      sourceUrl = url source,
      scrapedAt = clock e\<rparr>"

definition scrapeSource ::
  "('html, 'el) env \<Rightarrow> ScrapingSourceConfig \<Rightarrow> JSError + ScrapingResult" where
  "scrapeSource e source =
     (case axios_get e (url source) of
        Inl err \<Rightarrow> Inr (network_error_result e source err)
      | Inr html \<Rightarrow>
          (case extractEvents e html source of
             Inl err \<Rightarrow> Inr (network_error_result e source err)
           | Inr (evs, errs) \<Rightarrow>
               Inr \<lparr>events = evs, scrapingErrors = errs, sourceUrl = url source,
                    scrapedAt = clock e\<rparr>))"

text \<open>\<open>scrapeAll\<close>: the loop over the configured sources, in order.\<close>

fun scrapeAll_loop ::
  "('html, 'el) env \<Rightarrow> ScrapingSourceConfig list \<Rightarrow> ScrapingResult list
     \<Rightarrow> ScrapingResult list" where
  "scrapeAll_loop e [] results = results"
| "scrapeAll_loop e (source # rest) results =
     (case scrapeSource e source of
        Inr result \<Rightarrow> scrapeAll_loop e rest (results @ [result])
      | Inl err \<Rightarrow>
          scrapeAll_loop e rest
            (results @
               [\<lparr>events = [],
                 scrapingErrors = [\<lparr>se_message = ''Failed to scrape source '' @ name source
                                                   @ '': '' @ message err,
                                    se_url = Some (url source), se_timestamp = clock e\<rparr>],
                 sourceUrl = url source,
                 scrapedAt = clock e\<rparr>]))"

definition scrapeAll ::
  "('html, 'el) env \<Rightarrow> ScrapingSourceConfig list \<Rightarrow> JSError + ScrapingResult list" where
  "scrapeAll e sources = Inr (scrapeAll_loop e sources [])"

text \<open>\<open>scrapeSourceWithStatusManagement\<close>.\<close>

definition enhanced ::
  "ScrapingResult \<Rightarrow> ChangeDetectionResult option \<Rightarrow> EnhancedScrapingResult" where
  "enhanced basicResult cd =
     \<lparr>events = events basicResult, scrapingErrors = scrapingErrors basicResult,
      sourceUrl = sourceUrl basicResult, scrapedAt = scrapedAt basicResult,
      changeDetection = cd\<rparr>"

definition scrapeSourceWithStatusManagement ::
  "('html, 'el) env \<Rightarrow> ScrapingSourceConfig \<Rightarrow> 'l world
     \<Rightarrow> (JSError + EnhancedScrapingResult) \<times> 'l world" where
  "scrapeSourceWithStatusManagement e source w =
     (case scrapeSource e source of
        Inl err \<Rightarrow> (Inl err, w)
      | Inr basicResult \<Rightarrow>
          if events basicResult \<noteq> [] then
            (case processScrapedEvents (clock e) (events basicResult) (name source) w of
               (Inr cd, w') \<Rightarrow> (Inr (enhanced basicResult (Some cd)), w')
             | (Inl err, w') \<Rightarrow> (Inr (enhanced basicResult None), w'))
          else (Inr (enhanced basicResult None), w))"

text \<open>
  \<open>CircuitBreakerManager.getCircuitBreaker\<close> with a configuration, and
  \<open>scrapeSourceResilient\<close>. The breaker is an object shared through the manager's map: the
  state \<open>execute\<close> leaves it in is the state the map holds afterwards.
\<close>

definition getCircuitBreaker ::
  "string \<Rightarrow> CircuitBreakerConfig \<Rightarrow> 'l world \<Rightarrow> CircuitBreaker \<times> 'l world" where
  "getCircuitBreaker nm cfg w =
     (case circuitBreakers w nm of
        Some cb \<Rightarrow> (cb, w)
      | None \<Rightarrow> (new_CircuitBreaker nm cfg,
                 w\<lparr>circuitBreakers := (circuitBreakers w)(nm \<mapsto> new_CircuitBreaker nm cfg)\<rparr>))"

definition scrapeSourceResilient ::
  "('html, 'el) env \<Rightarrow> ScrapingSourceConfig \<Rightarrow> 'l world
     \<Rightarrow> (JSError + EnhancedScrapingResult) \<times> 'l world" where
  "scrapeSourceResilient e source w =
     (case getCircuitBreaker (''scraper-'' @ name source) scraper_config w of
        (circuitBreaker, w1) \<Rightarrow>
          (case execute circuitBreaker
                  (withRetry (scrapeSourceWithStatusManagement e source) 2 (clock e))
                  (clock e) (clock e) w1 of
             (r, cb', w2) \<Rightarrow>
               (r, w2\<lparr>circuitBreakers := (circuitBreakers w2)(''scraper-'' @ name source \<mapsto> cb')\<rparr>)))"

text \<open>
  \<open>scrapeAllResilient\<close>. The error analysis after the loop only writes to the logger.
\<close>

definition failed_result ::
  "('html, 'el) env \<Rightarrow> ScrapingSourceConfig \<Rightarrow> JSError \<Rightarrow> EnhancedScrapingResult" where
  "failed_result e source err =
     (let categorizedError = categorizeError (clock e) err (Some (url source)) in
      \<lparr>events = [],
       scrapingErrors = [\<lparr>se_message = se_message categorizedError,
                          se_url = se_url categorizedError,
                          se_timestamp = se_timestamp categorizedError\<rparr>],
       sourceUrl = url source,
       scrapedAt = clock e,
       changeDetection = None\<rparr>)"

fun scrapeAllResilient_loop ::
  "('html, 'el) env \<Rightarrow> ScrapingSourceConfig list \<Rightarrow> EnhancedScrapingResult list \<Rightarrow> 'l world
     \<Rightarrow> EnhancedScrapingResult list \<times> 'l world" where
  "scrapeAllResilient_loop e [] results w = (results, w)"
| "scrapeAllResilient_loop e (source # rest) results w =
     (case scrapeSourceResilient e source w of
        (Inr result, w') \<Rightarrow> scrapeAllResilient_loop e rest (results @ [result]) w'
      | (Inl err, w') \<Rightarrow>
          scrapeAllResilient_loop e rest (results @ [failed_result e source err]) w')"

definition scrapeAllResilient ::
  "('html, 'el) env \<Rightarrow> ScrapingSourceConfig list \<Rightarrow> 'l world
     \<Rightarrow> (JSError + EnhancedScrapingResult list) \<times> 'l world" where
  "scrapeAllResilient e sources w =
     (case scrapeAllResilient_loop e sources [] w of
        (results, w') \<Rightarrow> (Inr results, w'))"

section \<open>Predicates of the runner proofs\<close>

text \<open>
  \<open>fetch_or_extraction_fails\<close>: the fetch of the source throws, or loading the page and
  selecting its event elements throws. \<open>agree_except k\<close>: two worlds that differ at most
  in the circuit breaker named \<open>k\<close>. \<open>resilient_step\<close>: the body of the loop of
  \<open>scrapeAllResilient\<close> for one source, the result it pushes and the world it leaves.
  \<open>breaker_key\<close>: the name of a source's circuit breaker.
\<close>

definition fetch_or_extraction_fails ::
  "('html, 'el) env \<Rightarrow> ScrapingSourceConfig \<Rightarrow> bool" where
  "fetch_or_extraction_fails e source =
     (case axios_get e (url source) of
        Inl err \<Rightarrow> True
      | Inr html \<Rightarrow> isl (cheerio_select e html source))"

text \<open>The result \<open>scrapeSource\<close> returns (it returns one on every path).\<close>

definition basic_result :: "('html, 'el) env \<Rightarrow> ScrapingSourceConfig \<Rightarrow> ScrapingResult" where
  "basic_result e source = projr (scrapeSource e source)"

definition agree_except :: "string \<Rightarrow> 'l world \<Rightarrow> 'l world \<Rightarrow> bool" where
  "agree_except k w1 w2 \<longleftrightarrow>
     events_db w1 = events_db w2 \<and> statusChangeLogs w1 = statusChangeLogs w2
     \<and> scrapingLogs w1 = scrapingLogs w2
     \<and> (\<forall>n. n \<noteq> k \<longrightarrow> circuitBreakers w1 n = circuitBreakers w2 n)"

definition resilient_step ::
  "('html, 'el) env \<Rightarrow> ScrapingSourceConfig \<Rightarrow> 'l world
     \<Rightarrow> EnhancedScrapingResult \<times> 'l world" where
  "resilient_step e source w =
     (case scrapeSourceResilient e source w of
        (Inr result, w') \<Rightarrow> (result, w')
      | (Inl err, w') \<Rightarrow> (failed_result e source err, w'))"

definition breaker_key :: "ScrapingSourceConfig \<Rightarrow> string" where
  "breaker_key source = ''scraper-'' @ name source"

text \<open>
  \<open>fails_fast t c\<close>: a call of \<open>execute\<close> at time \<open>t\<close> on the breaker \<open>c\<close> the manager
  holds under a name (if any) fails without invoking the operation. \<open>alike t k\<close>: two
  worlds that differ at most in the breaker named \<open>k\<close>, and if they differ there, in
  neither of them that breaker fails fast at \<open>t\<close>.
\<close>

definition fails_fast :: "int \<Rightarrow> CircuitBreaker option \<Rightarrow> bool" where
  "fails_fast t c =
     (case c of None \<Rightarrow> False
      | Some cb \<Rightarrow> state cb = OPEN \<and> \<not> shouldAttemptReset t cb)"

definition alike :: "int \<Rightarrow> string \<Rightarrow> 'l world \<Rightarrow> 'l world \<Rightarrow> bool" where
  "alike t k w1 w2 \<longleftrightarrow>
     agree_except k w1 w2
     \<and> (if circuitBreakers w1 k = circuitBreakers w2 k then True
        else \<not> fails_fast t (circuitBreakers w1 k) \<and> \<not> fails_fast t (circuitBreakers w2 k))"

section \<open>Cycle scheduler (ScheduledScraper.ts)\<close>

record SourceResult =
  sr_sourceName :: string
  sr_success :: bool
  sr_eventsFound :: nat
  sr_errors :: nat
  sr_duration :: int

record OrchestrationResult =
  totalSources :: nat
  successfulSources :: nat
  failedSources :: int
  totalEvents :: nat
  totalErrors :: nat
  duration :: int
  cycle_startTime :: int
  cycle_endTime :: int
  sourceResults :: "SourceResult list"

definition createEmptyResult :: "int \<Rightarrow> OrchestrationResult" where
  "createEmptyResult now =
     \<lparr>totalSources = 0, successfulSources = 0, failedSources = 0, totalEvents = 0,
      totalErrors = 0, duration = 0, cycle_startTime = now, cycle_endTime = now,
      sourceResults = []\<rparr>"

text \<open>
  The fields of the scheduler that a cycle reads and writes, and the sources of its
  engine (\<open>scraperEngine.getSources()\<close>).
\<close>

record ScheduledScraper =
  engine_sources :: "ScrapingSourceConfig list"
  isRunning :: bool
  lastRunResult :: "OrchestrationResult option"

text \<open>The loop \<open>for (const error of result.scrapingErrors) await scrapingLog.addError(...)\<close>.\<close>

fun add_errors ::
  "int \<Rightarrow> string list \<Rightarrow> ScrapingLog \<Rightarrow> ScrapingLog list
     \<Rightarrow> JSError option \<times> ScrapingLog \<times> ScrapingLog list" where
  "add_errors now [] l ldb = (None, l, ldb)"
| "add_errors now (m # ms) l ldb =
     (case addError now m l ldb of
        (Some err, l', ldb') \<Rightarrow> (Some err, l', ldb')
      | (None, l', ldb') \<Rightarrow> add_errors now ms l' ldb')"

text \<open>
  The \<open>try\<close> block of the loop body of \<open>orchestrateScrapingSources\<close> for one source: the
  result of the source or the error thrown, the run-log document if it was created, and
  the world.
\<close>

definition try_source ::
  "('html, 'el) env \<Rightarrow> ScrapingSourceConfig \<Rightarrow> ScrapingLog world
     \<Rightarrow> (JSError + EnhancedScrapingResult) \<times> ScrapingLog option \<times> ScrapingLog world" where
  "try_source e source w =
     (case createLog (clock e) (url source) (scrapingLogs w) of
        (Some err, l0, ldb0) \<Rightarrow> (Inl err, None, w)
      | (None, scrapingLog, ldb1) \<Rightarrow>
          (case scrapeSourceWithStatusManagement e source (w\<lparr>scrapingLogs := ldb1\<rparr>) of
             (Inl err, w2) \<Rightarrow> (Inl err, Some scrapingLog, w2)
           | (Inr result, w2) \<Rightarrow>
               (case markCompleted (clock e) (int (length (events result)))
                       (int (length (events result))) scrapingLog (scrapingLogs w2) of
                  (Some err, l2, ldb2) \<Rightarrow> (Inl err, Some l2, w2)
                | (None, l2, ldb2) \<Rightarrow>
                    (case add_errors (clock e) (map se_message (scrapingErrors result)) l2 ldb2 of
                       (Some err, l3, ldb3) \<Rightarrow> (Inl err, Some l3, w2\<lparr>scrapingLogs := ldb3\<rparr>)
                     | (None, l3, ldb3) \<Rightarrow>
                         (Inr result, Some l3, w2\<lparr>scrapingLogs := ldb3\<rparr>)))))"

text \<open>The running totals of \<open>orchestrateScrapingSources\<close>.\<close>

record totals =
  t_sourceResults :: "SourceResult list"
  t_totalEvents :: nat
  t_totalErrors :: nat
  t_successfulSources :: nat

text \<open>
  The loop of \<open>orchestrateScrapingSources\<close>. In the \<open>catch\<close> block \<open>markFailed\<close> is awaited
  outside any \<open>try\<close>: an error it throws ends the loop and is thrown by
  \<open>orchestrateScrapingSources\<close>; what the call has written to the run log by then stays
  written.
\<close>

fun orchestrate_loop ::
  "('html, 'el) env \<Rightarrow> ScrapingSourceConfig list \<Rightarrow> totals \<Rightarrow> ScrapingLog world
     \<Rightarrow> (JSError + totals) \<times> ScrapingLog world" where
  "orchestrate_loop e [] acc w = (Inr acc, w)"
| "orchestrate_loop e (source # rest) acc w =
     (case try_source e source w of
        (Inr result, l, w') \<Rightarrow>
          orchestrate_loop e rest
            (acc\<lparr>t_sourceResults := t_sourceResults acc @
                   [\<lparr>sr_sourceName = name source, sr_success = True,
                     sr_eventsFound = length (events result),
                     sr_errors = length (scrapingErrors result),
                     sr_duration = 0\<rparr>],
                 t_totalEvents := t_totalEvents acc + length (events result),
                 t_totalErrors := t_totalErrors acc + length (scrapingErrors result),
                 t_successfulSources := t_successfulSources acc + 1\<rparr>) w'
      | (Inl err, l, w') \<Rightarrow>
          (let failed = acc\<lparr>t_sourceResults := t_sourceResults acc @
                              [\<lparr>sr_sourceName = name source, sr_success = False,
                                sr_eventsFound = 0, sr_errors = 1, sr_duration = 0\<rparr>],
                            t_totalErrors := t_totalErrors acc + 1\<rparr>
           in case l of
                None \<Rightarrow> orchestrate_loop e rest failed w'
              | Some scrapingLog \<Rightarrow>
                  (case markFailed (clock e) (message err) scrapingLog (scrapingLogs w') of
                     (Some err', l', ldb') \<Rightarrow> (Inl err', w'\<lparr>scrapingLogs := ldb'\<rparr>)
                   | (None, l', ldb') \<Rightarrow>
                       orchestrate_loop e rest failed (w'\<lparr>scrapingLogs := ldb'\<rparr>))))"

definition orchestrateScrapingSources ::
  "('html, 'el) env \<Rightarrow> ScrapingSourceConfig list \<Rightarrow> ScrapingLog world
     \<Rightarrow> (JSError + OrchestrationResult) \<times> ScrapingLog world" where
  "orchestrateScrapingSources e sources w =
     (if sources = [] then (Inr (createEmptyResult (clock e)), w)
      else
        (case orchestrate_loop e sources
                \<lparr>t_sourceResults = [], t_totalEvents = 0, t_totalErrors = 0,
                 t_successfulSources = 0\<rparr> w of
           (Inl err, w') \<Rightarrow> (Inl err, w')
         | (Inr acc, w') \<Rightarrow>
             (Inr \<lparr>totalSources = length sources,
                   successfulSources = t_successfulSources acc,
                   failedSources = int (length sources) - int (t_successfulSources acc),
                   totalEvents = t_totalEvents acc,
                   totalErrors = t_totalErrors acc,
                   duration = 0,
                   cycle_startTime = clock e,
                   cycle_endTime = clock e,
                   sourceResults = t_sourceResults acc\<rparr>, w')))"

text \<open>
  \<open>executeScrapingCycle\<close> is asynchronous. Between two \<open>await\<close>s a call runs without
  interruption, so a call is two atomic steps: \<open>cycle_enter\<close>, from the call to the
  \<open>await\<close> of \<open>orchestrateScrapingSources\<close> (or to the early return), and \<open>cycle_settle\<close>,
  from the settling of that promise to the return (the rest of the \<open>try\<close>, the \<open>catch\<close>
  and the \<open>finally\<close>). Other calls may run between the two.
\<close>

datatype entered = Skipped OrchestrationResult | Started

definition cycle_enter :: "int \<Rightarrow> ScheduledScraper \<Rightarrow> entered \<times> ScheduledScraper" where
  "cycle_enter now s =
     (if isRunning s
      then (Skipped (case lastRunResult s of Some r \<Rightarrow> r | None \<Rightarrow> createEmptyResult now), s)
      else (Started, s\<lparr>isRunning := True\<rparr>))"

definition cycle_settle ::
  "int \<Rightarrow> JSError + OrchestrationResult \<Rightarrow> ScheduledScraper
     \<Rightarrow> OrchestrationResult \<times> ScheduledScraper" where
  "cycle_settle now settled s =
     (case settled of
        Inr result \<Rightarrow> (result, s\<lparr>lastRunResult := Some result, isRunning := False\<rparr>)
      | Inl err \<Rightarrow>
          (let failedResult =
                 \<lparr>totalSources = length (engine_sources s), successfulSources = 0,
                  failedSources = int (length (engine_sources s)), totalEvents = 0,
                  totalErrors = 1, duration = 0, cycle_startTime = now, cycle_endTime = now,
                  sourceResults = []\<rparr>
           in (failedResult, s\<lparr>lastRunResult := Some failedResult, isRunning := False\<rparr>)))"

text \<open>A call of \<open>executeScrapingCycle\<close> that no other call interleaves with.\<close>

definition executeScrapingCycle ::
  "('html, 'el) env \<Rightarrow> ScheduledScraper \<Rightarrow> ScrapingLog world
     \<Rightarrow> OrchestrationResult \<times> ScheduledScraper \<times> ScrapingLog world" where
  "executeScrapingCycle e s w =
     (case cycle_enter (clock e) s of
        (Skipped r, s') \<Rightarrow> (r, s', w)
      | (Started, s') \<Rightarrow>
          (case orchestrateScrapingSources e (engine_sources s') w of
             (settled, w') \<Rightarrow>
               (case cycle_settle (clock e) settled s' of
                  (r, s'') \<Rightarrow> (r, s'', w'))))"

text \<open>
  Calls of one scheduler that overlap: a history is a sequence of events, a trigger (a
  call of \<open>executeScrapingCycle\<close> at a clock reading, by the timer or by hand) or the
  settling of the run in flight with its outcome. \<open>runs_started\<close> counts the calls of
  \<open>orchestrateScrapingSources\<close>; \<open>skipped\<close> and \<open>finished\<close> collect, in order, the results
  returned by the calls that found a cycle in progress and by the calls that ran.
\<close>

datatype cycle_event = Trigger int | Settle int "JSError + OrchestrationResult"

record history =
  scheduler :: ScheduledScraper
  runs_started :: nat
  skipped :: "OrchestrationResult list"
  finished :: "OrchestrationResult list"

fun cycle_step :: "history \<Rightarrow> cycle_event \<Rightarrow> history" where
  "cycle_step h (Trigger now) =
     (case cycle_enter now (scheduler h) of
        (Skipped r, s') \<Rightarrow> h\<lparr>scheduler := s', skipped := skipped h @ [r]\<rparr>
      | (Started, s') \<Rightarrow> h\<lparr>scheduler := s', runs_started := runs_started h + 1\<rparr>)"
| "cycle_step h (Settle now settled) =
     (if isRunning (scheduler h)
      then (case cycle_settle now settled (scheduler h) of
              (r, s') \<Rightarrow> h\<lparr>scheduler := s', finished := finished h @ [r]\<rparr>)
      else h)"

definition run_history :: "ScheduledScraper \<Rightarrow> cycle_event list \<Rightarrow> history" where
  "run_history s evs =
     foldl cycle_step \<lparr>scheduler = s, runs_started = 0, skipped = [], finished = []\<rparr> evs"

text \<open>A scheduler that has run no cycle yet, and a cycle result, for the examples.\<close>

definition idle_scheduler :: ScheduledScraper where
  "idle_scheduler = \<lparr>engine_sources = [], isRunning = False, lastRunResult = None\<rparr>"

definition example_result :: OrchestrationResult where
  "example_result =
     \<lparr>totalSources = 2, successfulSources = 2, failedSources = 0, totalEvents = 3,
      totalErrors = 0, duration = 0, cycle_startTime = 0, cycle_endTime = 10,
      sourceResults = []\<rparr>"

section \<open>Example data\<close>

text \<open>
  A source whose name is a URL (the schema requires \<open>sourceWebsite\<close>, which the runner
  sets to the source's name, to be one), an event as the runner extracts it from that
  source, with the category tag "Music", the document the store holds for it (the
  \<open>pre("save")\<close> hook has put the tag in lower case), a world with nothing in it, and two
  reconciliation passes of the same one-event batch, the second on the store the first
  left.
\<close>

definition example_source :: string where
  "example_source = ''https://example.com''"

definition jazz_scraped :: EventData where
  "jazz_scraped =
     \<lparr>title = ''Jazz Night'', dateTime = 1800000000000, venueName = ''Town Hall'',
      venueAddress = None, city = ''Sydney'', description = ''Live jazz'',
      categoryTags = [''Music''], imageUrl = None,
      sourceWebsite = ''https://example.com'',
      originalEventUrl = ''https://example.com/e/a'', lastScrapedAt = 1000\<rparr>"

definition empty_world :: "'l world" where
  "empty_world = \<lparr>events_db = [], statusChangeLogs = [], scrapingLogs = [],
                   circuitBreakers = (\<lambda>nm. None)\<rparr>"

definition jazz_doc :: "EventStatus \<Rightarrow> IEvent" where
  "jazz_doc st =
     \<lparr>title = ''Jazz Night'', dateTime = 1800000000000, venueName = ''Town Hall'',
      venueAddress = None, city = ''Sydney'', description = ''Live jazz'',
      categoryTags = [''music''], imageUrl = None,
      sourceWebsite = ''https://example.com'',
      originalEventUrl = ''https://example.com/e/a'', lastScrapedAt = 1000,
      doc_id = 1, status = st, importedAt = None, importedBy = None, importNotes = None,
      createdAt = 1000, updatedAt = 1000\<rparr>"

definition first_pass :: "(JSError + ChangeDetectionResult) \<times> ScrapingLog world" where
  "first_pass = processScrapedEvents 1000 [jazz_scraped] example_source empty_world"

definition second_pass :: "(JSError + ChangeDetectionResult) \<times> ScrapingLog world" where
  "second_pass = processScrapedEvents 2000 [jazz_scraped] example_source (snd first_pass)"

definition created_entry :: StatusChangeLog where
  "created_entry =
     \<lparr>eventId = 1, previousStatus = NEW, newStatus = NEW,
      change_reason = ''Event created from scraping'', timestamp = 1000,
      metadata = [(''sourceWebsite'', ''https://example.com'')]\<rparr>"

text \<open>
  A store holding the one record after it was imported; a later scrape of the same page
  on which the event has a new date (\<open>jazz_rescheduled\<close>, tags already in lower case);
  a batch with another event of the same page (\<open>jazz_other\<close>), and the pass that
  reconciles it against the store with the imported record.
\<close>

definition imported_world :: "ScrapingLog world" where
  "imported_world = empty_world\<lparr>events_db := [jazz_doc IMPORTED]\<rparr>"

definition jazz_rescheduled :: EventData where
  "jazz_rescheduled = jazz_scraped\<lparr>categoryTags := [''music''], dateTime := 1800086400000\<rparr>"

definition jazz_other :: EventData where
  "jazz_other = jazz_scraped\<lparr>originalEventUrl := ''https://example.com/e/b''\<rparr>"

definition other_pass ::
  "(JSError + ChangeDetectionResult) \<times> ScrapingLog world" where
  "other_pass = processScrapedEvents 2000 [jazz_other] example_source imported_world"

text \<open>
  A scheduler with two sources and the outside world they are scraped in: the host of the
  first source cannot be resolved (every \<open>axios.get\<close> of a URL other than the second
  source's page throws), the page of the second source has three event elements, and
  each of them gives an event.
\<close>

definition down_source :: ScrapingSourceConfig where
  "down_source = \<lparr>name = ''https://down.example'', url = ''https://down.example/events'',
                  selectors = [], dateFormat = None, baseUrl = None\<rparr>"

definition up_source :: ScrapingSourceConfig where
  "up_source = \<lparr>name = ''https://example.com'', url = ''https://example.com/events'',
                selectors = [], dateFormat = None, baseUrl = None\<rparr>"

definition scraped_event :: "char \<Rightarrow> ScrapingSourceConfig \<Rightarrow> EventData" where
  "scraped_event el source =
     jazz_scraped\<lparr>sourceWebsite := name source,
                  originalEventUrl := ''https://example.com/e/'' @ [el]\<rparr>"

definition example_env :: "(unit, char) env" where
  "example_env =
     \<lparr>axios_get = (\<lambda>u. if u = ''https://example.com/events'' then Inr ()
                        else Inl (Error ''getaddrinfo ENOTFOUND down.example'')),
      cheerio_select = (\<lambda>html source. Inr ''abc''),
      extractSingleEvent = (\<lambda>el source. Inr (Some (scraped_event el source))),
      clock = 1000\<rparr>"

definition example_scheduler :: ScheduledScraper where
  "example_scheduler = idle_scheduler\<lparr>engine_sources := [down_source, up_source]\<rparr>"

section \<open>Properties of the string primitives\<close>

lemma startsWith_iff: "startsWith s sub \<longleftrightarrow> (\<exists>post. s = sub @ post)"
  by (induction s sub rule: startsWith.induct) auto

lemma str_includes_iff: "str_includes s sub \<longleftrightarrow> (\<exists>pre post. s = pre @ sub @ post)"
proof (induction s)
  case Nil
  then show ?case by auto
next
  case (Cons x xs)
  show ?case
  proof
    assume "str_includes (x # xs) sub"
    then consider "startsWith (x # xs) sub" | "str_includes xs sub" by auto
    then show "\<exists>pre post. x # xs = pre @ sub @ post"
    proof cases
      case 1
      then obtain post where "x # xs = sub @ post" by (auto simp: startsWith_iff)
      then have "x # xs = [] @ sub @ post" by simp
      then show ?thesis by blast
    next
      case 2
      then obtain pre post where "xs = pre @ sub @ post" using Cons.IH by blast
      then have "x # xs = (x # pre) @ sub @ post" by simp
      then show ?thesis by blast
    qed
  next
    assume "\<exists>pre post. x # xs = pre @ sub @ post"
    then obtain pre post where e: "x # xs = pre @ sub @ post" by blast
    show "str_includes (x # xs) sub"
    proof (cases pre)
      case Nil
      with e have "startsWith (x # xs) sub" by (auto simp: startsWith_iff)
      then show ?thesis by simp
    next
      case (Cons p ps)
      with e have "xs = ps @ sub @ post" by simp
      then have "str_includes xs sub" using Cons.IH by blast
      then show ?thesis by simp
    qed
  qed
qed

lemma str_includes_append: "str_includes (pre @ sub @ post) sub"
  by (auto simp: str_includes_iff)

section \<open>Status transition validation\<close>

lemma validTransitions_table:
  "n \<in> set (validTransitions c) \<longleftrightarrow> (c, n) \<in> spec_transition_table"
  by (cases c; cases n) (simp_all add: spec_transition_table_def)

lemma invalid_reason_mentions_current:
  "str_includes (''Invalid transition from '' @ status_str c @ rest) (status_str c)"
  using str_includes_append [of "''Invalid transition from ''" "status_str c" rest] by simp

lemma invalid_reason_mentions_requested:
  "str_includes (''Invalid transition from '' @ status_str c @ '' to '' @ status_str n @ rest)
     (status_str n)"
  using str_includes_append
    [of "''Invalid transition from '' @ status_str c @ '' to ''" "status_str n" rest]
  by simp

text \<open>
  C2. \<open>validateStatusTransition\<close> answers valid exactly for the pairs of the transition
  table new -> {updated, inactive, imported}, updated -> {inactive, imported},
  inactive -> {imported}, imported -> {}; a valid answer carries no reason, and for every
  pair outside the table the answer is invalid and carries a reason string in which both
  the current and the requested status occur.
\<close>

theorem validateStatusTransition_table:
  "(valid (validateStatusTransition c n) \<longleftrightarrow> (c, n) \<in> spec_transition_table)
   \<and> ((c, n) \<in> spec_transition_table \<longrightarrow> reason (validateStatusTransition c n) = None)
   \<and> ((c, n) \<notin> spec_transition_table \<longrightarrow>
        (\<exists>r. reason (validateStatusTransition c n) = Some r
             \<and> str_includes r (status_str c) \<and> str_includes r (status_str n)))"
proof -
  have m: "n \<in> set (validTransitions c) \<longleftrightarrow> (c, n) \<in> spec_transition_table"
    by (rule validTransitions_table)
  show ?thesis
  proof (cases "(c, n) \<in> spec_transition_table")
    case True
    then show ?thesis using m by (simp add: validateStatusTransition_def)
  next
    case False
    then have nm: "n \<notin> set (validTransitions c)" using m by simp
    have "str_includes (''Invalid transition from '' @ status_str c @ '' to '' @ status_str n
            @ ''. Allowed transitions: '' @ join '', '' (map status_str (validTransitions c)))
            (status_str c)"
      by (rule invalid_reason_mentions_current)
    moreover have "str_includes (''Invalid transition from '' @ status_str c @ '' to ''
            @ status_str n
            @ ''. Allowed transitions: '' @ join '', '' (map status_str (validTransitions c)))
            (status_str n)"
      by (rule invalid_reason_mentions_requested)
    ultimately show ?thesis using False nm
      by (simp add: validateStatusTransition_def Let_def)
  qed
qed

theorem validateStatusTransition_table_witness:
  "valid (validateStatusTransition NEW IMPORTED)
   \<and> reason (validateStatusTransition NEW IMPORTED) = None
   \<and> \<not> valid (validateStatusTransition IMPORTED UPDATED)
   \<and> reason (validateStatusTransition IMPORTED UPDATED)
       = Some ''Invalid transition from imported to updated. Allowed transitions: ''
   \<and> (\<exists>r. reason (validateStatusTransition IMPORTED UPDATED) = Some r
          \<and> str_includes r (status_str IMPORTED) \<and> str_includes r (status_str UPDATED))"
proof -
  have a: "(NEW, IMPORTED) \<in> spec_transition_table"
    by (simp add: spec_transition_table_def)
  have b: "(IMPORTED, UPDATED) \<notin> spec_transition_table"
    by (simp add: spec_transition_table_def)
  have c: "reason (validateStatusTransition IMPORTED UPDATED)
       = Some ''Invalid transition from imported to updated. Allowed transitions: ''"
    by (simp add: validateStatusTransition_def Let_def)
  show ?thesis
    using a b c validateStatusTransition_table [of NEW IMPORTED]
      validateStatusTransition_table [of IMPORTED UPDATED]
    by simp
qed

section \<open>Circuit breaker\<close>

lemma onFailure_config [simp]: "config (onFailure now cb) = config cb"
  by (simp add: onFailure_def Let_def)

lemma onSuccess_config [simp]: "config (onSuccess cb) = config cb"
  by (simp add: onSuccess_def Let_def)

lemma execute_config: "execute cb operation t1 t2 w = (r, cb', w') \<Longrightarrow> config cb' = config cb"
  by (auto simp: execute_def invoke_def split: if_splits prod.splits sum.splits)

lemma execute_open_fast_fail:
  "state cb = OPEN \<Longrightarrow> t_enter - lastFailureTime cb < recoveryTimeout (config cb) \<Longrightarrow>
   execute cb operation t_enter t_settle w
     = (Inl (Error (''Circuit breaker '' @ cb_name cb @ '' is OPEN'')), cb, w)"
  by (simp add: execute_def shouldAttemptReset_def)

lemma execute_open_recovery:
  "state cb = OPEN \<Longrightarrow> t_enter - lastFailureTime cb \<ge> recoveryTimeout (config cb) \<Longrightarrow>
   execute cb operation t_enter t_settle w
     = invoke (cb\<lparr>state := HALF_OPEN\<rparr>) operation t_settle w"
  by (simp add: execute_def shouldAttemptReset_def)

lemma onFailure_half_open: "state cb = HALF_OPEN \<Longrightarrow> state (onFailure now cb) = OPEN"
  by (simp add: onFailure_def Let_def)

lemma always_fails_at:
  assumes "always_fails operation"
  obtains er w1 where "operation w = (Inl er, w1)"
proof -
  have "isl (fst (operation w))" using assms by (simp add: always_fails_def)
  then show ?thesis using that by (cases "operation w"; cases "fst (operation w)") auto
qed

lemma execute_fail_from_open:
  assumes "state cb = OPEN" "always_fails operation"
    "execute cb operation t1 t2 w = (r, cb', w')"
  shows "state cb' = OPEN"
proof -
  obtain er w1 where "operation w = (Inl er, w1)" using assms(2) by (rule always_fails_at)
  then show ?thesis using assms(1,3)
    by (auto simp: execute_def invoke_def onFailure_def Let_def split: if_splits)
qed

lemma execute_calls_open_stays:
  "state cb = OPEN \<Longrightarrow> always_fails operation \<Longrightarrow>
   state (fst (execute_calls cb operation calls w)) = OPEN"
proof (induction calls arbitrary: cb w)
  case Nil
  then show ?case by simp
next
  case (Cons c calls)
  obtain t1 t2 where c: "c = (t1, t2)" by (cases c)
  obtain r cb' w' where e: "execute cb operation t1 t2 w = (r, cb', w')"
    by (cases "execute cb operation t1 t2 w")
  have "state cb' = OPEN" using execute_fail_from_open [OF Cons.prems(1,2) e] .
  then show ?case using Cons.IH [of cb' w'] Cons.prems(2) c e by simp
qed

lemma execute_fail_step:
  assumes f: "always_fails operation"
    and e: "execute cb operation t1 now w = (r, cb', w')"
    and p: "p = monitoringPeriod (config cb)"
    and win: "list_all (\<lambda>t'. t' - now \<le> p) (now # ts)"
  shows "state cb' = OPEN \<or>
     (state cb' = CLOSED \<and> int (length (failureTimes cb')) < failureThreshold (config cb')
       \<and> safe_count p ts cb' \<ge> safe_count p (now # ts) cb + 1)"
proof -
  obtain er w1 where o: "operation w = (Inl er, w1)" using f by (rule always_fails_at)
  have keep: "filter (\<lambda>t. list_all (\<lambda>t'. t' - t \<le> p) ts)
                (filter (\<lambda>time. now - time \<le> p) (failureTimes cb @ [now]))
        = filter (\<lambda>t. list_all (\<lambda>t'. t' - t \<le> p) (now # ts)) (failureTimes cb) @ [now]"
    using win by (auto intro!: filter_cong)
  show ?thesis
  proof (cases "state cb")
    case CLOSED
    then show ?thesis using e o keep p
      by (auto simp: execute_def invoke_def onFailure_def Let_def safe_count_def split: if_splits)
  next
    case OPEN
    then show ?thesis using e o
      by (auto simp: execute_def invoke_def onFailure_def Let_def split: if_splits)
  next
    case HALF_OPEN
    then show ?thesis using e o
      by (auto simp: execute_def invoke_def onFailure_def Let_def split: if_splits)
  qed
qed

lemma execute_calls_fail_inv:
  assumes f: "always_fails operation"
  shows "within_window (monitoringPeriod (config cb)) (map snd calls) \<Longrightarrow>
     state cb = OPEN \<or>
       (state cb = CLOSED \<and> int (length (failureTimes cb)) < failureThreshold (config cb)
        \<and> int (safe_count (monitoringPeriod (config cb)) (map snd calls) cb) + int (length calls)
             \<ge> failureThreshold (config cb)) \<Longrightarrow>
     state (fst (execute_calls cb operation calls w)) = OPEN"
proof (induction calls arbitrary: cb w)
  case Nil
  then show ?case by (auto simp: safe_count_def)
next
  case (Cons c calls)
  obtain t1 now where c: "c = (t1, now)" by (cases c)
  obtain r cb' w' where e: "execute cb operation t1 now w = (r, cb', w')"
    by (cases "execute cb operation t1 now w")
  have cfg: "config cb' = config cb" using e by (rule execute_config)
  have win: "list_all (\<lambda>t'. t' - now \<le> monitoringPeriod (config cb)) (now # map snd calls)"
    and win': "within_window (monitoringPeriod (config cb')) (map snd calls)"
    using Cons.prems(1) c cfg by simp_all
  have step: "state cb' = OPEN \<or>
     (state cb' = CLOSED \<and> int (length (failureTimes cb')) < failureThreshold (config cb')
       \<and> safe_count (monitoringPeriod (config cb)) (map snd calls) cb'
            \<ge> safe_count (monitoringPeriod (config cb)) (now # map snd calls) cb + 1)"
    using execute_fail_step [OF f e refl win] .
  have "state cb' = OPEN \<or>
       (state cb' = CLOSED \<and> int (length (failureTimes cb')) < failureThreshold (config cb')
        \<and> int (safe_count (monitoringPeriod (config cb')) (map snd calls) cb')
              + int (length calls) \<ge> failureThreshold (config cb'))"
  proof (cases "state cb' = OPEN")
    case True
    then show ?thesis by simp
  next
    case False
    then have cl: "state cb' = CLOSED"
      and lt: "int (length (failureTimes cb')) < failureThreshold (config cb')"
      and ge: "safe_count (monitoringPeriod (config cb)) (map snd calls) cb'
            \<ge> safe_count (monitoringPeriod (config cb)) (now # map snd calls) cb + 1"
      using step by auto
    have "state cb \<noteq> OPEN" using False execute_fail_from_open [OF _ f e] by blast
    then have "int (safe_count (monitoringPeriod (config cb)) (map snd (c # calls)) cb)
                 + int (length (c # calls)) \<ge> failureThreshold (config cb)"
      using Cons.prems(2) by blast
    then show ?thesis using cl lt ge c cfg by simp
  qed
  then have "state (fst (execute_calls cb' operation calls w')) = OPEN"
    using Cons.IH [OF win'] by blast
  then show ?case using c e by simp
qed

lemma execute_calls_failures_open:
  assumes f: "always_fails operation"
    and ne: "calls \<noteq> []"
    and n: "int (length calls) \<ge> failureThreshold (config cb)"
    and win: "within_window (monitoringPeriod (config cb)) (map snd calls)"
  shows "state (fst (execute_calls cb operation calls w)) = OPEN"
proof -
  obtain t1 now rest where c: "calls = (t1, now) # rest" using ne by (cases calls) auto
  obtain r cb' w' where e: "execute cb operation t1 now w = (r, cb', w')"
    by (cases "execute cb operation t1 now w")
  have cfg: "config cb' = config cb" using e by (rule execute_config)
  have w1: "list_all (\<lambda>t'. t' - now \<le> monitoringPeriod (config cb)) (now # map snd rest)"
    and w2: "within_window (monitoringPeriod (config cb')) (map snd rest)"
    using win c cfg by simp_all
  have step: "state cb' = OPEN \<or>
     (state cb' = CLOSED \<and> int (length (failureTimes cb')) < failureThreshold (config cb')
       \<and> safe_count (monitoringPeriod (config cb)) (map snd rest) cb'
            \<ge> safe_count (monitoringPeriod (config cb)) (now # map snd rest) cb + 1)"
    using execute_fail_step [OF f e refl w1] .
  then have "state cb' = OPEN \<or>
       (state cb' = CLOSED \<and> int (length (failureTimes cb')) < failureThreshold (config cb')
        \<and> int (safe_count (monitoringPeriod (config cb')) (map snd rest) cb')
              + int (length rest) \<ge> failureThreshold (config cb'))"
    using n c cfg by auto
  then have "state (fst (execute_calls cb' operation rest w')) = OPEN"
    using execute_calls_fail_inv [OF f w2] by blast
  then show ?thesis using c e by simp
qed

lemma always_succeeds_at:
  assumes "always_succeeds operation"
  obtains v w1 where "operation w = (Inr v, w1)"
proof -
  have "\<not> isl (fst (operation w))" using assms by (simp add: always_succeeds_def)
  then show ?thesis using that by (cases "operation w"; cases "fst (operation w)") auto
qed

lemma execute_success_closed:
  assumes "always_succeeds operation" "state cb = CLOSED"
    "execute cb operation t1 t2 w = (r, cb', w')"
  shows "state cb' = CLOSED"
proof -
  obtain v w1 where "operation w = (Inr v, w1)" using assms(1) by (rule always_succeeds_at)
  then show ?thesis using assms(2,3)
    by (auto simp: execute_def invoke_def onSuccess_def Let_def)
qed

lemma execute_success_half_open:
  assumes "always_succeeds operation" "state cb = HALF_OPEN"
    "execute cb operation t1 t2 w = (r, cb', w')"
  shows "state cb' = CLOSED \<or>
     (state cb' = HALF_OPEN \<and> successes cb' = successes cb + 1
       \<and> int (successes cb') < successThreshold (config cb'))"
proof -
  obtain v w1 where "operation w = (Inr v, w1)" using assms(1) by (rule always_succeeds_at)
  then show ?thesis using assms(2,3)
    by (auto simp: execute_def invoke_def onSuccess_def Let_def split: if_splits)
qed

lemma execute_calls_success_inv:
  assumes s: "always_succeeds operation"
  shows "state cb = CLOSED \<or>
       (state cb = HALF_OPEN \<and> int (successes cb) < successThreshold (config cb)
        \<and> int (successes cb) + int (length calls) \<ge> successThreshold (config cb)) \<Longrightarrow>
     state (fst (execute_calls cb operation calls w)) = CLOSED"
proof (induction calls arbitrary: cb w)
  case Nil
  then show ?case by auto
next
  case (Cons c calls)
  obtain t1 t2 where c: "c = (t1, t2)" by (cases c)
  obtain r cb' w' where e: "execute cb operation t1 t2 w = (r, cb', w')"
    by (cases "execute cb operation t1 t2 w")
  have cfg: "config cb' = config cb" using e by (rule execute_config)
  have "state cb' = CLOSED \<or>
       (state cb' = HALF_OPEN \<and> int (successes cb') < successThreshold (config cb')
        \<and> int (successes cb') + int (length calls) \<ge> successThreshold (config cb'))"
  proof (cases "state cb = CLOSED")
    case True
    then show ?thesis using execute_success_closed [OF s True e] by simp
  next
    case False
    then have h: "state cb = HALF_OPEN"
      and ge: "int (successes cb) + int (length (c # calls)) \<ge> successThreshold (config cb)"
      using Cons.prems by auto
    show ?thesis using execute_success_half_open [OF s h e] ge cfg by auto
  qed
  then have "state (fst (execute_calls cb' operation calls w')) = CLOSED"
    by (rule Cons.IH)
  then show ?case using c e by simp
qed

lemma execute_calls_successes_close:
  assumes s: "always_succeeds operation"
    and h: "state cb = HALF_OPEN"
    and ne: "calls \<noteq> []"
    and n: "int (length calls) \<ge> successThreshold (config cb)"
  shows "state (fst (execute_calls cb operation calls w)) = CLOSED"
proof -
  obtain t1 t2 rest where c: "calls = (t1, t2) # rest" using ne by (cases calls) auto
  obtain r cb' w' where e: "execute cb operation t1 t2 w = (r, cb', w')"
    by (cases "execute cb operation t1 t2 w")
  have cfg: "config cb' = config cb" using e by (rule execute_config)
  have "state cb' = CLOSED \<or>
       (state cb' = HALF_OPEN \<and> int (successes cb') < successThreshold (config cb')
        \<and> int (successes cb') + int (length rest) \<ge> successThreshold (config cb'))"
    using execute_success_half_open [OF s h e] n c cfg by auto
  then have "state (fst (execute_calls cb' operation rest w')) = CLOSED"
    by (rule execute_calls_success_inv [OF s])
  then show ?thesis using c e by simp
qed

lemma execute_calls_recovery:
  assumes "state cb = OPEN" "t_enter - lastFailureTime cb \<ge> recoveryTimeout (config cb)"
  shows "execute_calls cb operation ((t_enter, t_settle) # calls) w
       = execute_calls (cb\<lparr>state := HALF_OPEN\<rparr>) operation ((t_enter, t_settle) # calls) w"
  using assms by (simp add: execute_def shouldAttemptReset_def)

lemma execute_half_open_failure:
  assumes "state cb = HALF_OPEN" "isl (fst (operation w))"
  shows "state (fst (snd (execute cb operation t_enter t_settle w))) = OPEN"
proof -
  obtain er w1 where "operation w = (Inl er, w1)"
    using assms(2) by (cases "operation w"; cases "fst (operation w)") auto
  then show ?thesis using assms(1)
    by (simp add: execute_def invoke_def onFailure_def Let_def)
qed

text \<open>
  C4 (amended). For the circuit breaker: (1) after a non-empty run of at least
  \<open>failureThreshold\<close> consecutive \<open>execute\<close> calls whose operation fails, all of
  whose failures lie within one \<open>monitoringPeriod\<close> window, the state is OPEN, from any
  starting state; (2) while OPEN and before \<open>recoveryTimeout\<close> has elapsed since the last
  failure, \<open>execute\<close> fails with the error "Circuit breaker <name> is OPEN", leaves the
  breaker and the world as they were and does not invoke the operation; (3) once
  \<open>recoveryTimeout\<close> has elapsed, \<open>execute\<close> moves to HALF_OPEN and invokes the
  operation (its outcome and its effect on the world are the operation's); (4) from
  HALF_OPEN, and from OPEN after the recovery timeout, a non-empty run of at least
  \<open>successThreshold\<close> consecutive successes ends in CLOSED; (5) a failure in
  HALF_OPEN returns the state to OPEN.
\<close>

theorem circuit_breaker_lifecycle:
  "(always_fails operation \<and> calls \<noteq> []
      \<and> int (length calls) \<ge> failureThreshold (config cb)
      \<and> within_window (monitoringPeriod (config cb)) (map snd calls)
     \<longrightarrow> state (fst (execute_calls cb operation calls w)) = OPEN)
   \<and> (state cb = OPEN \<and> t_enter - lastFailureTime cb < recoveryTimeout (config cb)
     \<longrightarrow> execute cb operation t_enter t_settle w
           = (Inl (Error (''Circuit breaker '' @ cb_name cb @ '' is OPEN'')), cb, w))
   \<and> (state cb = OPEN \<and> t_enter - lastFailureTime cb \<ge> recoveryTimeout (config cb)
     \<longrightarrow> execute cb operation t_enter t_settle w
           = invoke (cb\<lparr>state := HALF_OPEN\<rparr>) operation t_settle w
         \<and> fst (execute cb operation t_enter t_settle w) = fst (operation w)
         \<and> snd (snd (execute cb operation t_enter t_settle w)) = snd (operation w))
   \<and> (state cb = HALF_OPEN \<and> always_succeeds operation \<and> calls \<noteq> []
      \<and> int (length calls) \<ge> successThreshold (config cb)
     \<longrightarrow> state (fst (execute_calls cb operation calls w)) = CLOSED)
   \<and> (state cb = OPEN \<and> t_enter - lastFailureTime cb \<ge> recoveryTimeout (config cb)
      \<and> always_succeeds operation
      \<and> 1 + int (length calls) \<ge> successThreshold (config cb)
     \<longrightarrow> state (fst (execute_calls cb operation ((t_enter, t_settle) # calls) w)) = CLOSED)
   \<and> (state cb = HALF_OPEN \<and> isl (fst (operation w))
     \<longrightarrow> state (fst (snd (execute cb operation t_enter t_settle w))) = OPEN)"
proof (intro conjI impI)
  assume a: "always_fails operation \<and> calls \<noteq> []
      \<and> int (length calls) \<ge> failureThreshold (config cb)
      \<and> within_window (monitoringPeriod (config cb)) (map snd calls)"
  have a1: "always_fails operation" and a2: "calls \<noteq> []"
    and a3: "int (length calls) \<ge> failureThreshold (config cb)"
    and a4: "within_window (monitoringPeriod (config cb)) (map snd calls)"
    using a by simp_all
  show "state (fst (execute_calls cb operation calls w)) = OPEN"
    by (rule execute_calls_failures_open [OF a1 a2 a3 a4])
next
  assume a: "state cb = OPEN \<and> t_enter - lastFailureTime cb < recoveryTimeout (config cb)"
  have a1: "state cb = OPEN"
    and a2: "t_enter - lastFailureTime cb < recoveryTimeout (config cb)"
    using a by simp_all
  show "execute cb operation t_enter t_settle w
           = (Inl (Error (''Circuit breaker '' @ cb_name cb @ '' is OPEN'')), cb, w)"
    by (rule execute_open_fast_fail [OF a1 a2])
next
  assume a: "state cb = OPEN \<and> t_enter - lastFailureTime cb \<ge> recoveryTimeout (config cb)"
  have a1: "state cb = OPEN"
    and a2: "t_enter - lastFailureTime cb \<ge> recoveryTimeout (config cb)"
    using a by simp_all
  show e: "execute cb operation t_enter t_settle w
           = invoke (cb\<lparr>state := HALF_OPEN\<rparr>) operation t_settle w"
    by (rule execute_open_recovery [OF a1 a2])
  show "fst (execute cb operation t_enter t_settle w) = fst (operation w)"
    unfolding e by (cases "operation w"; cases "fst (operation w)") (simp_all add: invoke_def)
  show "snd (snd (execute cb operation t_enter t_settle w)) = snd (operation w)"
    unfolding e by (cases "operation w"; cases "fst (operation w)") (simp_all add: invoke_def)
next
  assume a: "state cb = HALF_OPEN \<and> always_succeeds operation \<and> calls \<noteq> []
      \<and> int (length calls) \<ge> successThreshold (config cb)"
  have a1: "state cb = HALF_OPEN" and a2: "always_succeeds operation" and a3: "calls \<noteq> []"
    and a4: "int (length calls) \<ge> successThreshold (config cb)"
    using a by simp_all
  show "state (fst (execute_calls cb operation calls w)) = CLOSED"
    by (rule execute_calls_successes_close [OF a2 a1 a3 a4])
next
  assume a: "state cb = OPEN \<and> t_enter - lastFailureTime cb \<ge> recoveryTimeout (config cb)
      \<and> always_succeeds operation
      \<and> 1 + int (length calls) \<ge> successThreshold (config cb)"
  have a1: "state cb = OPEN"
    and a2: "t_enter - lastFailureTime cb \<ge> recoveryTimeout (config cb)"
    and a3: "always_succeeds operation"
    and a4: "1 + int (length calls) \<ge> successThreshold (config cb)"
    using a by simp_all
  have h1: "state (cb\<lparr>state := HALF_OPEN\<rparr>) = HALF_OPEN" by simp
  have h2: "(t_enter, t_settle) # calls \<noteq> []" by simp
  have h3: "int (length ((t_enter, t_settle) # calls))
              \<ge> successThreshold (config (cb\<lparr>state := HALF_OPEN\<rparr>))"
    using a4 by simp
  have "state (fst (execute_calls (cb\<lparr>state := HALF_OPEN\<rparr>) operation
                   ((t_enter, t_settle) # calls) w)) = CLOSED"
    by (rule execute_calls_successes_close [OF a3 h1 h2 h3])
  then show "state (fst (execute_calls cb operation ((t_enter, t_settle) # calls) w))
      = CLOSED"
    unfolding execute_calls_recovery [OF a1 a2] .
next
  assume a: "state cb = HALF_OPEN \<and> isl (fst (operation w))"
  have a1: "state cb = HALF_OPEN" and a2: "isl (fst (operation w))" using a by simp_all
  show "state (fst (snd (execute cb operation t_enter t_settle w))) = OPEN"
    using a1 a2 by (rule execute_half_open_failure)
qed

theorem circuit_breaker_lifecycle_witness:
  "state (fst (execute_calls (new_CircuitBreaker ''scraper-a'' scraper_config)
           (\<lambda>w. (Inl (Error ''ECONNREFUSED'') :: JSError + unit, w))
           [(0, 100), (60000, 60100), (120000, 120100)] ())) = OPEN
   \<and> execute ((new_CircuitBreaker ''scraper-a'' scraper_config)
                 \<lparr>state := OPEN, lastFailureTime := 120100\<rparr>)
         (\<lambda>w. (Inr (7::nat), Suc w)) 180000 180100 (0::nat)
       = (Inl (Error ''Circuit breaker scraper-a is OPEN''),
          (new_CircuitBreaker ''scraper-a'' scraper_config)
                 \<lparr>state := OPEN, lastFailureTime := 120100\<rparr>, 0)
   \<and> execute ((new_CircuitBreaker ''scraper-a'' scraper_config)
                 \<lparr>state := OPEN, lastFailureTime := 120100\<rparr>)
         (\<lambda>w. (Inr (7::nat) :: JSError + nat, Suc w)) 420100 420200 (0::nat)
       = (Inr 7, (new_CircuitBreaker ''scraper-a'' scraper_config)
                 \<lparr>state := HALF_OPEN, successes := 1, lastFailureTime := 120100\<rparr>, 1)
   \<and> state (fst (execute_calls ((new_CircuitBreaker ''scraper-a'' scraper_config)
                 \<lparr>state := HALF_OPEN\<rparr>)
           (\<lambda>w. (Inr (7::nat), Suc w)) [(0, 100), (200, 300)] (0::nat))) = CLOSED
   \<and> state (fst (execute_calls ((new_CircuitBreaker ''scraper-a'' scraper_config)
                 \<lparr>state := OPEN, lastFailureTime := 120100\<rparr>)
           (\<lambda>w. (Inr (7::nat), Suc w)) [(420100, 420200), (420300, 420400)] (0::nat))) = CLOSED
   \<and> state (fst (snd (execute ((new_CircuitBreaker ''scraper-a'' scraper_config)
                 \<lparr>state := HALF_OPEN\<rparr>)
           (\<lambda>w. (Inl (Error ''ECONNREFUSED'') :: JSError + unit, w)) 0 100 ()))) = OPEN"
proof -
  let ?fail = "\<lambda>w::unit. (Inl (Error ''ECONNREFUSED'') :: JSError + unit, w)"
  let ?ok = "\<lambda>w::nat. (Inr (7::nat) :: JSError + nat, Suc w)"
  let ?new = "new_CircuitBreaker ''scraper-a'' scraper_config"
  let ?opn = "?new\<lparr>state := OPEN, lastFailureTime := 120100\<rparr>"
  let ?half = "?new\<lparr>state := HALF_OPEN\<rparr>"
  have f: "always_fails ?fail" by (simp add: always_fails_def)
  have s: "always_succeeds ?ok" by (simp add: always_succeeds_def)
  have cfg: "config ?new = scraper_config" "config ?opn = scraper_config"
    "config ?half = scraper_config" "cb_name ?opn = ''scraper-a''"
    "state ?opn = OPEN" "state ?half = HALF_OPEN" "lastFailureTime ?opn = 120100"
    by (simp_all add: new_CircuitBreaker_def)
  have c1: "state (fst (execute_calls ?new ?fail
           [(0, 100), (60000, 60100), (120000, 120100)] ())) = OPEN"
    by (rule circuit_breaker_lifecycle [where operation = ?fail
        and calls = "[(0, 100), (60000, 60100), (120000, 120100)]"
        and cb = ?new and w = "()", THEN conjunct1, THEN mp])
      (simp add: f new_CircuitBreaker_def scraper_config_def)
  have c2: "execute ?opn ?ok 180000 180100 0
       = (Inl (Error (''Circuit breaker '' @ cb_name ?opn @ '' is OPEN'')), ?opn, 0)"
    by (rule circuit_breaker_lifecycle [where operation = ?ok and cb = ?opn and w = 0
        and t_enter = 180000 and t_settle = 180100,
        THEN conjunct2, THEN conjunct1, THEN mp])
      (simp add: new_CircuitBreaker_def scraper_config_def)
  have c3: "execute ?opn ?ok 420100 420200 0
          = invoke (?opn\<lparr>state := HALF_OPEN\<rparr>) ?ok 420200 0
         \<and> fst (execute ?opn ?ok 420100 420200 0) = fst (?ok 0)
         \<and> snd (snd (execute ?opn ?ok 420100 420200 0)) = snd (?ok 0)"
    by (rule circuit_breaker_lifecycle [where operation = ?ok and cb = ?opn and w = 0
        and t_enter = 420100 and t_settle = 420200,
        THEN conjunct2, THEN conjunct2, THEN conjunct1, THEN mp])
      (simp add: new_CircuitBreaker_def scraper_config_def)
  have c3': "invoke (?opn\<lparr>state := HALF_OPEN\<rparr>) ?ok 420200 0
      = (Inr 7, ?new\<lparr>state := HALF_OPEN, successes := 1, lastFailureTime := 120100\<rparr>, 1)"
    by (simp add: invoke_def onSuccess_def Let_def new_CircuitBreaker_def scraper_config_def)
  have c4: "state (fst (execute_calls ?half ?ok [(0, 100), (200, 300)] 0)) = CLOSED"
    by (rule circuit_breaker_lifecycle [where operation = ?ok and cb = ?half and w = 0
        and calls = "[(0, 100), (200, 300)]",
        THEN conjunct2, THEN conjunct2, THEN conjunct2, THEN conjunct1, THEN mp])
      (simp add: s new_CircuitBreaker_def scraper_config_def)
  have c5: "state (fst (execute_calls ?opn ?ok ((420100, 420200) # [(420300, 420400)]) 0))
      = CLOSED"
    by (rule circuit_breaker_lifecycle [where operation = ?ok and cb = ?opn and w = 0
        and t_enter = 420100 and t_settle = 420200 and calls = "[(420300, 420400)]",
        THEN conjunct2, THEN conjunct2, THEN conjunct2, THEN conjunct2, THEN conjunct1,
        THEN mp])
      (simp add: s new_CircuitBreaker_def scraper_config_def)
  have c6: "state (fst (snd (execute ?half ?fail 0 100 ()))) = OPEN"
    by (rule circuit_breaker_lifecycle [where operation = ?fail and cb = ?half and w = "()"
        and t_enter = 0 and t_settle = 100,
        THEN conjunct2, THEN conjunct2, THEN conjunct2, THEN conjunct2, THEN conjunct2,
        THEN mp])
      (simp add: new_CircuitBreaker_def)
  show ?thesis using c1 c2 c3 c3' c4 c5 c6 by (simp add: cfg)
qed

text \<open>
  The claim as first stated (OPEN after \<open>failureThreshold\<close> consecutive failures,
  whenever they happen) fails: with the configuration the scraper uses (threshold 3,
  monitoring period 15 minutes), three consecutive failures one hour apart leave the
  breaker CLOSED, because \<open>onFailure\<close> counts only the failures of the last
  \<open>monitoringPeriod\<close> milliseconds.
\<close>

theorem circuit_breaker_opens_after_threshold_counterexample:
  "always_fails (\<lambda>w::unit. (Inl (Error ''ECONNREFUSED'') :: JSError + unit, w))
   \<and> int (length [(0, 100), (3600000, 3600100), (7200000, 7200100 :: int)])
        = failureThreshold scraper_config
   \<and> state (fst (execute_calls (new_CircuitBreaker ''scraper-a'' scraper_config)
           (\<lambda>w. (Inl (Error ''ECONNREFUSED'') :: JSError + unit, w))
           [(0, 100), (3600000, 3600100), (7200000, 7200100)] ())) = CLOSED
   \<and> failures (fst (execute_calls (new_CircuitBreaker ''scraper-a'' scraper_config)
           (\<lambda>w. (Inl (Error ''ECONNREFUSED'') :: JSError + unit, w))
           [(0, 100), (3600000, 3600100), (7200000, 7200100)] ())) = 3"
proof -
  let ?fail = "\<lambda>w::unit. (Inl (Error ''ECONNREFUSED'') :: JSError + unit, w)"
  let ?cb0 = "new_CircuitBreaker ''scraper-a'' scraper_config"
  let ?cb1 = "?cb0\<lparr>failures := 1, lastFailureTime := 100, failureTimes := [100]\<rparr>"
  let ?cb2 = "?cb0\<lparr>failures := 2, lastFailureTime := 3600100, failureTimes := [3600100]\<rparr>"
  let ?cb3 = "?cb0\<lparr>failures := 3, lastFailureTime := 7200100, failureTimes := [7200100]\<rparr>"
  have e1: "execute ?cb0 ?fail 0 100 () = (Inl (Error ''ECONNREFUSED''), ?cb1, ())"
    by (simp add: execute_def invoke_def onFailure_def new_CircuitBreaker_def scraper_config_def)
  have e2: "execute ?cb1 ?fail 3600000 3600100 () = (Inl (Error ''ECONNREFUSED''), ?cb2, ())"
    by (simp add: execute_def invoke_def onFailure_def new_CircuitBreaker_def scraper_config_def)
  have e3: "execute ?cb2 ?fail 7200000 7200100 () = (Inl (Error ''ECONNREFUSED''), ?cb3, ())"
    by (simp add: execute_def invoke_def onFailure_def new_CircuitBreaker_def scraper_config_def)
  have r: "execute_calls ?cb0 ?fail [(0, 100), (3600000, 3600100), (7200000, 7200100)] ()
      = (?cb3, ())"
    by (simp only: execute_calls.simps e1 e2 e3 prod.case)
  show ?thesis unfolding r
    by (simp add: always_fails_def new_CircuitBreaker_def scraper_config_def)
qed

section \<open>Run log\<close>

lemma log_pre_save_inv: "log_pre_save now l = (None, l1) \<Longrightarrow> log_inv l1"
  by (auto simp: log_pre_save_def log_inv_def Let_def split: if_splits option.splits)

lemma log_pre_save_fields:
  "log_pre_save now l = (None, l1) \<Longrightarrow>
     log_status l1 = log_status l \<and> eventsFound l1 = eventsFound l
     \<and> eventsProcessed l1 = eventsProcessed l \<and> log_id l1 = log_id l
     \<and> endTime l1 = (if (log_status l = Completed \<or> log_status l = Failed) \<and> endTime l = None
                      then Some now else endTime l)"
  by (auto simp: log_pre_save_def Let_def split: if_splits option.splits)

lemma log_pre_save_rejects:
  "eventsProcessed l > eventsFound l \<Longrightarrow>
   \<exists>err. log_pre_save now l
      = (Some err,
         if (log_status l = Completed \<or> log_status l = Failed) \<and> endTime l = None
         then l\<lparr>endTime := Some now\<rparr> else l)"
  by (auto simp: log_pre_save_def Let_def split: option.splits)

lemma log_pre_save_accepts:
  assumes "eventsProcessed l \<le> eventsFound l" "endTime l = Some t" "startTime l \<le> t"
  shows "log_pre_save now l = (None, l)"
  using assms by (simp add: log_pre_save_def)

lemma log_save_ok:
  assumes "log_save now isNew l ldb = (None, l', ldb')"
  shows "validate_log l = [] \<and> log_pre_save now l = (None, l')
     \<and> ldb' = (if isNew then ldb @ [l']
               else map (\<lambda>e. if log_id e = log_id l' then l' else e) ldb)"
  using assms
  by (auto simp: log_save_def split: list.splits prod.splits option.splits if_splits)

lemma log_save_rejects:
  assumes "eventsProcessed l > eventsFound l"
  shows "\<exists>err. log_save now isNew l ldb
     = (Some err,
        (if validate_log l = [] \<and> (log_status l = Completed \<or> log_status l = Failed)
            \<and> endTime l = None
         then l\<lparr>endTime := Some now\<rparr> else l),
        ldb)"
proof (cases "validate_log l")
  case Nil
  obtain err where "log_pre_save now l
      = (Some err,
         if (log_status l = Completed \<or> log_status l = Failed) \<and> endTime l = None
         then l\<lparr>endTime := Some now\<rparr> else l)"
    using log_pre_save_rejects [OF assms] by blast
  then show ?thesis using Nil by (simp add: log_save_def)
next
  case (Cons m ms)
  then show ?thesis by (simp add: log_save_def)
qed

lemma log_save_failed_keeps:
  "log_save now isNew l ldb = (Some err, l', ldb') \<Longrightarrow> ldb' = ldb"
  by (auto simp: log_save_def split: list.splits prod.splits option.splits if_splits)

lemma log_save_collection_inv:
  assumes "log_save now isNew l ldb = (r, l', ldb')" "list_all log_inv ldb"
  shows "list_all log_inv ldb'"
proof (cases r)
  case None
  have s: "log_pre_save now l = (None, l')"
    and d: "ldb' = (if isNew then ldb @ [l']
               else map (\<lambda>e. if log_id e = log_id l' then l' else e) ldb)"
    using log_save_ok assms(1) None by blast+
  have "log_inv l'" using s by (rule log_pre_save_inv)
  then show ?thesis using assms(2) d by (auto simp: list_all_iff)
next
  case (Some err)
  then show ?thesis using assms log_save_failed_keeps by blast
qed

lemma log_save_accepts:
  assumes "validate_log l = []" "eventsProcessed l \<le> eventsFound l" "endTime l = Some t"
    "startTime l \<le> t"
  shows "log_save now False l ldb
     = (None, l, map (\<lambda>e. if log_id e = log_id l then l else e) ldb)"
  using assms by (simp add: log_save_def log_pre_save_accepts)

text \<open>
  The one \<open>save\<close> of \<open>markFailed\<close> that is not refused: the document it saves, and what
  \<open>markFailed\<close> returns in terms of it.
\<close>

lemma markFailed_unfold:
  "markFailed now msg l ldb =
     (case log_save now False
             (if msg \<noteq> [] \<and> length (log_scrapingErrors l) < 100
              then l\<lparr>log_status := Failed, endTime := Some now,
                     log_scrapingErrors := log_scrapingErrors l @ [msg]\<rparr>
              else l\<lparr>log_status := Failed, endTime := Some now\<rparr>) ldb of
        (e1, l2, ldb2) \<Rightarrow>
          (if msg \<noteq> [] then Some (ParallelSaveError l2) else e1, l2, ldb2))"
  by (simp add: markFailed_def addError_def Let_def split: prod.splits)

lemma markFailed_saved:
  assumes m: "markFailed now msg l ldb = (r, l', ldb')"
  shows "(msg \<noteq> [] \<longrightarrow> r = Some (ParallelSaveError l'))
     \<and> (ldb' = ldb
        \<or> ldb' = map (\<lambda>e. if log_id e = log_id l' then l' else e) ldb
          \<and> log_status l' = Failed \<and> endTime l' = Some now
          \<and> eventsProcessed l' \<le> eventsFound l')
     \<and> (r = None \<longrightarrow> ldb' = map (\<lambda>e. if log_id e = log_id l' then l' else e) ldb)
     \<and> (list_all log_inv ldb \<longrightarrow> list_all log_inv ldb')"
proof -
  let ?m = "if msg \<noteq> [] \<and> length (log_scrapingErrors l) < 100
              then l\<lparr>log_status := Failed, endTime := Some now,
                     log_scrapingErrors := log_scrapingErrors l @ [msg]\<rparr>
              else l\<lparr>log_status := Failed, endTime := Some now\<rparr>"
  obtain e1 l2 ldb2 where s: "log_save now False ?m ldb = (e1, l2, ldb2)"
    by (cases "log_save now False ?m ldb")
  have r: "r = (if msg \<noteq> [] then Some (ParallelSaveError l2) else e1)"
    and l': "l' = l2" and ldb': "ldb' = ldb2"
    using m unfolding markFailed_unfold s by simp_all
  have a: "msg \<noteq> [] \<longrightarrow> r = Some (ParallelSaveError l')" using r l' by simp
  have d: "list_all log_inv ldb \<longrightarrow> list_all log_inv ldb'"
    using log_save_collection_inv [OF s] ldb' by simp
  have w: "ldb2 = map (\<lambda>e. if log_id e = log_id l2 then l2 else e) ldb
          \<and> log_status l2 = Failed \<and> endTime l2 = Some now
          \<and> eventsProcessed l2 \<le> eventsFound l2" if n: "e1 = None"
  proof -
    have p: "log_pre_save now ?m = (None, l2)"
      and w1: "ldb2 = map (\<lambda>e. if log_id e = log_id l2 then l2 else e) ldb"
      using log_save_ok [of now False ?m ldb l2 ldb2] s n by simp_all
    have f: "log_status l2 = Failed \<and> endTime l2 = Some now"
      using log_pre_save_fields [OF p] by simp
    have "log_inv l2" using p by (rule log_pre_save_inv)
    then show ?thesis using w1 f by (simp add: log_inv_def)
  qed
  have b: "ldb' = ldb
        \<or> ldb' = map (\<lambda>e. if log_id e = log_id l' then l' else e) ldb
          \<and> log_status l' = Failed \<and> endTime l' = Some now
          \<and> eventsProcessed l' \<le> eventsFound l'"
  proof (cases e1)
    case None
    then show ?thesis using w l' ldb' by simp
  next
    case (Some err)
    then have "ldb2 = ldb" using s log_save_failed_keeps by blast
    then show ?thesis using ldb' by simp
  qed
  have c: "r = None \<longrightarrow> ldb' = map (\<lambda>e. if log_id e = log_id l' then l' else e) ldb"
  proof
    assume "r = None"
    then have "e1 = None" using r by (simp split: if_splits)
    then show "ldb' = map (\<lambda>e. if log_id e = log_id l' then l' else e) ldb"
      using w l' ldb' by simp
  qed
  show ?thesis using a b c d by (intro conjI)
qed

lemma markFailed_written:
  assumes m: "markFailed now msg l ldb = (r, l', ldb')"
    and v: "validate_log l = []" and c: "eventsProcessed l \<le> eventsFound l"
    and t: "startTime l \<le> now"
  shows "ldb' = map (\<lambda>e. if log_id e = log_id l' then l' else e) ldb
     \<and> log_status l' = Failed \<and> endTime l' = Some now"
proof -
  define d where "d = (if msg \<noteq> [] \<and> length (log_scrapingErrors l) < 100
              then l\<lparr>log_status := Failed, endTime := Some now,
                     log_scrapingErrors := log_scrapingErrors l @ [msg]\<rparr>
              else l\<lparr>log_status := Failed, endTime := Some now\<rparr>)"
  have u: "markFailed now msg l ldb =
     (case log_save now False d ldb of
        (e1, l2, ldb2) \<Rightarrow>
          (if msg \<noteq> [] then Some (ParallelSaveError l2) else e1, l2, ldb2))"
    unfolding d_def by (rule markFailed_unfold)
  have vd: "validate_log d = []"
    using v by (auto simp: d_def validate_log_def split: if_splits)
  have f: "eventsProcessed d \<le> eventsFound d" "endTime d = Some now" "startTime d \<le> now"
    "log_status d = Failed"
    using c t by (simp_all add: d_def)
  have s: "log_save now False d ldb
     = (None, d, map (\<lambda>e. if log_id e = log_id d then d else e) ldb)"
    by (rule log_save_accepts [OF vd f(1) f(2) f(3)])
  have "l' = d" and "ldb' = map (\<lambda>e. if log_id e = log_id d then d else e) ldb"
    using m unfolding u s by auto
  then show ?thesis using f by simp
qed

text \<open>
  C8. Every successful \<open>save\<close> of a run-log entry leaves an entry with
  \<open>eventsProcessed \<le> eventsFound\<close>, and with an end time when its status is completed
  or failed (set to the clock by the hook when the entry had none). A save of an entry
  whose \<open>eventsProcessed\<close> exceeds \<open>eventsFound\<close> is rejected with an error and writes
  nothing (in memory the hook may already have set the end time). So a collection whose
  entries all have the two properties keeps them through every save. \<open>markCompleted\<close>,
  when its save succeeds, stores the entry with the status, the counts and the end time of
  the transition. \<open>markFailed\<close> with a non-empty message returns the rejection of its
  second \<open>save\<close>; whatever it returns, it writes nothing or it stores the entry as failed
  with the end time of the transition, it does the latter for every entry that passes
  the validators, has \<open>eventsProcessed \<le> eventsFound\<close> and did not start after the
  clock, and the collection keeps the two properties.
\<close>

theorem run_log_save_invariants:
  "(log_save now isNew l ldb = (None, l', ldb') \<longrightarrow>
       eventsProcessed l' \<le> eventsFound l'
       \<and> (log_status l' = Completed \<or> log_status l' = Failed \<longrightarrow> endTime l' \<noteq> None)
       \<and> (log_status l' = Completed \<or> log_status l' = Failed \<longrightarrow> endTime l = None
            \<longrightarrow> endTime l' = Some now)
       \<and> ldb' = (if isNew then ldb @ [l']
                 else map (\<lambda>e. if log_id e = log_id l' then l' else e) ldb))
   \<and> (eventsProcessed l > eventsFound l \<longrightarrow>
        (\<exists>err. log_save now isNew l ldb
           = (Some err,
              (if validate_log l = [] \<and> (log_status l = Completed \<or> log_status l = Failed)
                  \<and> endTime l = None
               then l\<lparr>endTime := Some now\<rparr> else l),
              ldb)))
   \<and> (log_save now isNew l ldb = (r, l', ldb') \<and> list_all log_inv ldb
        \<longrightarrow> list_all log_inv ldb')
   \<and> (markCompleted now found processed l ldb = (None, l', ldb') \<longrightarrow>
        log_status l' = Completed \<and> endTime l' = Some now
        \<and> eventsFound l' = found \<and> eventsProcessed l' = processed \<and> processed \<le> found
        \<and> ldb' = map (\<lambda>e. if log_id e = log_id l' then l' else e) ldb)
   \<and> (markFailed now msg l ldb = (r, l', ldb') \<longrightarrow>
        (msg \<noteq> [] \<longrightarrow> r = Some (ParallelSaveError l'))
        \<and> (ldb' = ldb
           \<or> ldb' = map (\<lambda>e. if log_id e = log_id l' then l' else e) ldb
             \<and> log_status l' = Failed \<and> endTime l' = Some now
             \<and> eventsProcessed l' \<le> eventsFound l')
        \<and> (r = None \<longrightarrow> ldb' = map (\<lambda>e. if log_id e = log_id l' then l' else e) ldb)
        \<and> (list_all log_inv ldb \<longrightarrow> list_all log_inv ldb')
        \<and> (validate_log l = [] \<and> eventsProcessed l \<le> eventsFound l \<and> startTime l \<le> now
             \<longrightarrow> ldb' = map (\<lambda>e. if log_id e = log_id l' then l' else e) ldb
                 \<and> log_status l' = Failed \<and> endTime l' = Some now))"
proof -
  have c1: "log_save now isNew l ldb = (None, l', ldb') \<longrightarrow>
       eventsProcessed l' \<le> eventsFound l'
       \<and> (log_status l' = Completed \<or> log_status l' = Failed \<longrightarrow> endTime l' \<noteq> None)
       \<and> (log_status l' = Completed \<or> log_status l' = Failed \<longrightarrow> endTime l = None
            \<longrightarrow> endTime l' = Some now)
       \<and> ldb' = (if isNew then ldb @ [l']
                 else map (\<lambda>e. if log_id e = log_id l' then l' else e) ldb)"
  proof
    assume a: "log_save now isNew l ldb = (None, l', ldb')"
    have s: "log_pre_save now l = (None, l')"
      and d: "ldb' = (if isNew then ldb @ [l']
               else map (\<lambda>e. if log_id e = log_id l' then l' else e) ldb)"
      using log_save_ok [OF a] by simp_all
    have i: "log_inv l'" using s by (rule log_pre_save_inv)
    have x: "eventsProcessed l' \<le> eventsFound l'" using i by (simp add: log_inv_def)
    have y: "log_status l' = Completed \<or> log_status l' = Failed \<longrightarrow> endTime l' \<noteq> None"
      using i by (auto simp: log_inv_def)
    have z: "log_status l' = Completed \<or> log_status l' = Failed \<longrightarrow> endTime l = None
            \<longrightarrow> endTime l' = Some now"
      using log_pre_save_fields [OF s] by auto
    show "eventsProcessed l' \<le> eventsFound l'
       \<and> (log_status l' = Completed \<or> log_status l' = Failed \<longrightarrow> endTime l' \<noteq> None)
       \<and> (log_status l' = Completed \<or> log_status l' = Failed \<longrightarrow> endTime l = None
            \<longrightarrow> endTime l' = Some now)
       \<and> ldb' = (if isNew then ldb @ [l']
                 else map (\<lambda>e. if log_id e = log_id l' then l' else e) ldb)"
      using x y z d by (intro conjI)
  qed
  have c2: "eventsProcessed l > eventsFound l \<longrightarrow>
        (\<exists>err. log_save now isNew l ldb
           = (Some err,
              (if validate_log l = [] \<and> (log_status l = Completed \<or> log_status l = Failed)
                  \<and> endTime l = None
               then l\<lparr>endTime := Some now\<rparr> else l),
              ldb))"
    using log_save_rejects by blast
  have c3: "log_save now isNew l ldb = (r, l', ldb') \<and> list_all log_inv ldb
        \<longrightarrow> list_all log_inv ldb'"
    using log_save_collection_inv by blast
  have c4: "markCompleted now found processed l ldb = (None, l', ldb') \<longrightarrow>
        log_status l' = Completed \<and> endTime l' = Some now
        \<and> eventsFound l' = found \<and> eventsProcessed l' = processed \<and> processed \<le> found
        \<and> ldb' = map (\<lambda>e. if log_id e = log_id l' then l' else e) ldb"
  proof
    assume a: "markCompleted now found processed l ldb = (None, l', ldb')"
    let ?m = "l\<lparr>log_status := Completed, endTime := Some now, eventsFound := found,
          eventsProcessed := processed\<rparr>"
    have s: "log_pre_save now ?m = (None, l')"
      and d: "ldb' = map (\<lambda>e. if log_id e = log_id l' then l' else e) ldb"
      using log_save_ok [of now False ?m ldb l' ldb'] a by (simp_all add: markCompleted_def)
    have f: "log_status l' = Completed \<and> eventsFound l' = found
       \<and> eventsProcessed l' = processed \<and> endTime l' = Some now"
      using log_pre_save_fields [OF s] by simp
    have i: "log_inv l'" using s by (rule log_pre_save_inv)
    have "processed \<le> found" using i f by (simp add: log_inv_def)
    then show "log_status l' = Completed \<and> endTime l' = Some now
        \<and> eventsFound l' = found \<and> eventsProcessed l' = processed \<and> processed \<le> found
        \<and> ldb' = map (\<lambda>e. if log_id e = log_id l' then l' else e) ldb"
      using f d by simp
  qed
  have c5: "markFailed now msg l ldb = (r, l', ldb') \<longrightarrow>
        (msg \<noteq> [] \<longrightarrow> r = Some (ParallelSaveError l'))
        \<and> (ldb' = ldb
           \<or> ldb' = map (\<lambda>e. if log_id e = log_id l' then l' else e) ldb
             \<and> log_status l' = Failed \<and> endTime l' = Some now
             \<and> eventsProcessed l' \<le> eventsFound l')
        \<and> (r = None \<longrightarrow> ldb' = map (\<lambda>e. if log_id e = log_id l' then l' else e) ldb)
        \<and> (list_all log_inv ldb \<longrightarrow> list_all log_inv ldb')
        \<and> (validate_log l = [] \<and> eventsProcessed l \<le> eventsFound l \<and> startTime l \<le> now
             \<longrightarrow> ldb' = map (\<lambda>e. if log_id e = log_id l' then l' else e) ldb
                 \<and> log_status l' = Failed \<and> endTime l' = Some now)"
  proof
    assume m: "markFailed now msg l ldb = (r, l', ldb')"
    note s = markFailed_saved [OF m]
    have w: "validate_log l = [] \<and> eventsProcessed l \<le> eventsFound l \<and> startTime l \<le> now
             \<longrightarrow> ldb' = map (\<lambda>e. if log_id e = log_id l' then l' else e) ldb
                 \<and> log_status l' = Failed \<and> endTime l' = Some now"
      using markFailed_written [OF m] by blast
    show "(msg \<noteq> [] \<longrightarrow> r = Some (ParallelSaveError l'))
        \<and> (ldb' = ldb
           \<or> ldb' = map (\<lambda>e. if log_id e = log_id l' then l' else e) ldb
             \<and> log_status l' = Failed \<and> endTime l' = Some now
             \<and> eventsProcessed l' \<le> eventsFound l')
        \<and> (r = None \<longrightarrow> ldb' = map (\<lambda>e. if log_id e = log_id l' then l' else e) ldb)
        \<and> (list_all log_inv ldb \<longrightarrow> list_all log_inv ldb')
        \<and> (validate_log l = [] \<and> eventsProcessed l \<le> eventsFound l \<and> startTime l \<le> now
             \<longrightarrow> ldb' = map (\<lambda>e. if log_id e = log_id l' then l' else e) ldb
                 \<and> log_status l' = Failed \<and> endTime l' = Some now)"
      using s w by (intro conjI) simp_all
  qed
  show ?thesis using c1 c2 c3 c4 c5 by (intro conjI)
qed

theorem run_log_save_invariants_witness:
  "log_save 2000 False completed_log [example_log]
     = (None, completed_log\<lparr>endTime := Some 2000\<rparr>, [completed_log\<lparr>endTime := Some 2000\<rparr>])
   \<and> eventsProcessed (completed_log\<lparr>endTime := Some 2000\<rparr>)
       \<le> eventsFound (completed_log\<lparr>endTime := Some 2000\<rparr>)
   \<and> endTime completed_log = None
   \<and> endTime (completed_log\<lparr>endTime := Some 2000\<rparr>) = Some 2000
   \<and> (\<exists>err. log_save 2000 False overcounted_log [example_log]
            = (Some err, overcounted_log\<lparr>endTime := Some 2000\<rparr>, [example_log]))
   \<and> list_all log_inv (snd (snd (log_save 2000 False completed_log [example_log])))
   \<and> markCompleted 2000 3 3 example_log [example_log]
       = (None, completed_log\<lparr>endTime := Some 2000\<rparr>, [completed_log\<lparr>endTime := Some 2000\<rparr>])
   \<and> log_status (completed_log\<lparr>endTime := Some 2000\<rparr>) = Completed
   \<and> markFailed 2000 ''boom'' example_log [example_log]
       = (Some (ParallelSaveError failed_log), failed_log, [failed_log])
   \<and> list_all log_inv [failed_log]
   \<and> [failed_log] = map (\<lambda>e. if log_id e = log_id failed_log then failed_log else e)
                         [example_log]
   \<and> log_status failed_log = Failed \<and> endTime failed_log = Some 2000"
proof -
  let ?c = "completed_log"
  let ?c' = "completed_log\<lparr>endTime := Some 2000\<rparr>"
  have e1: "log_save 2000 False ?c [example_log] = (None, ?c', [?c'])"
    by (simp add: log_save_def validate_log_def urlRegex_test_def log_pre_save_def
        example_log_def completed_log_def)
  have w1: "eventsProcessed ?c' \<le> eventsFound ?c'
       \<and> (log_status ?c' = Completed \<or> log_status ?c' = Failed \<longrightarrow> endTime ?c' \<noteq> None)
       \<and> (log_status ?c' = Completed \<or> log_status ?c' = Failed \<longrightarrow> endTime ?c = None
            \<longrightarrow> endTime ?c' = Some 2000)
       \<and> [?c'] = (if False then [example_log] @ [?c']
                 else map (\<lambda>e. if log_id e = log_id ?c' then ?c' else e) [example_log])"
    by (rule run_log_save_invariants [where now = 2000 and isNew = False and l = ?c
          and ldb = "[example_log]" and l' = ?c' and ldb' = "[?c']",
          THEN conjunct1, THEN mp]) (rule e1)
  have st: "log_status ?c' = Completed" by (simp add: completed_log_def)
  have n: "endTime ?c = None" by (simp add: completed_log_def example_log_def)
  have h2: "eventsProcessed ?c' \<le> eventsFound ?c'" by (rule w1 [THEN conjunct1])
  have h3: "endTime ?c' = Some 2000"
    using w1 [THEN conjunct2, THEN conjunct2, THEN conjunct1] st n by blast
  have b: "eventsProcessed overcounted_log > eventsFound overcounted_log"
    by (simp add: overcounted_log_def)
  have vb: "validate_log overcounted_log = [] \<and> (log_status overcounted_log = Completed
      \<or> log_status overcounted_log = Failed) \<and> endTime overcounted_log = None"
    by (simp add: overcounted_log_def example_log_def validate_log_def urlRegex_test_def)
  have h4: "\<exists>err. log_save 2000 False overcounted_log [example_log]
            = (Some err, overcounted_log\<lparr>endTime := Some 2000\<rparr>, [example_log])"
    using run_log_save_invariants [where now = 2000 and isNew = False
          and l = overcounted_log and ldb = "[example_log]",
          THEN conjunct2, THEN conjunct1, THEN mp, OF b]
    unfolding if_P [OF vb] .
  have i0: "list_all log_inv [example_log]" by (simp add: log_inv_def example_log_def)
  have w5: "list_all log_inv [?c']"
    by (rule run_log_save_invariants [where now = 2000 and isNew = False and l = ?c
          and ldb = "[example_log]" and l' = ?c' and ldb' = "[?c']" and r = None,
          THEN conjunct2, THEN conjunct2, THEN conjunct1, THEN mp]) (simp only: e1 i0)
  have h5: "list_all log_inv (snd (snd (log_save 2000 False ?c [example_log])))"
    unfolding e1 snd_conv by (rule w5)
  have e6: "markCompleted 2000 3 3 example_log [example_log] = (None, ?c', [?c'])"
    by (simp add: markCompleted_def log_save_def validate_log_def urlRegex_test_def
        log_pre_save_def example_log_def completed_log_def)
  have w6: "log_status ?c' = Completed \<and> endTime ?c' = Some 2000
        \<and> eventsFound ?c' = 3 \<and> eventsProcessed ?c' = 3 \<and> (3::int) \<le> 3
        \<and> [?c'] = map (\<lambda>e. if log_id e = log_id ?c' then ?c' else e) [example_log]"
    by (rule run_log_save_invariants [where now = 2000 and found = 3 and processed = 3
          and l = example_log and ldb = "[example_log]" and l' = ?c' and ldb' = "[?c']",
          THEN conjunct2, THEN conjunct2, THEN conjunct2, THEN conjunct1, THEN mp]) (rule e6)
  have h7: "log_status ?c' = Completed" by (rule w6 [THEN conjunct1])
  have e8: "markFailed 2000 ''boom'' example_log [example_log]
       = (Some (ParallelSaveError failed_log), failed_log, [failed_log])"
    by (simp add: markFailed_def addError_def log_save_def validate_log_def urlRegex_test_def
        log_pre_save_def example_log_def failed_log_def Let_def)
  note w8 = run_log_save_invariants [where now = 2000 and msg = "''boom''"
          and l = example_log and ldb = "[example_log]"
          and r = "Some (ParallelSaveError failed_log)" and l' = failed_log
          and ldb' = "[failed_log]",
          THEN conjunct2, THEN conjunct2, THEN conjunct2, THEN conjunct2, THEN mp, OF e8]
  have h9: "list_all log_inv [failed_log]"
    by (rule w8 [THEN conjunct2, THEN conjunct2, THEN conjunct2, THEN conjunct1, THEN mp])
       (rule i0)
  have p: "validate_log example_log = [] \<and> eventsProcessed example_log \<le> eventsFound example_log
      \<and> startTime example_log \<le> 2000"
    by (simp add: example_log_def validate_log_def urlRegex_test_def)
  have h10: "[failed_log] = map (\<lambda>e. if log_id e = log_id failed_log then failed_log else e)
                         [example_log]
      \<and> log_status failed_log = Failed \<and> endTime failed_log = Some 2000"
    by (rule w8 [THEN conjunct2, THEN conjunct2, THEN conjunct2, THEN conjunct2, THEN mp])
       (rule p)
  show ?thesis
    by (intro conjI) (rule e1 h2 n h3 h4 h5 e6 h7 e8 h9 h10 [THEN conjunct1]
        h10 [THEN conjunct2, THEN conjunct1] h10 [THEN conjunct2, THEN conjunct2])+
qed

section \<open>Overlapping cycles\<close>

lemma cycle_enter_running:
  "isRunning s \<Longrightarrow>
   cycle_enter now s
     = (Skipped (case lastRunResult s of Some r \<Rightarrow> r | None \<Rightarrow> createEmptyResult now), s)"
  by (simp add: cycle_enter_def)

lemma triggers_while_running:
  "isRunning (scheduler h) \<Longrightarrow>
   foldl cycle_step h (map Trigger ts)
     = h\<lparr>skipped := skipped h @
           map (\<lambda>t. case lastRunResult (scheduler h) of Some r \<Rightarrow> r
                     | None \<Rightarrow> createEmptyResult t) ts\<rparr>"
proof (induction ts arbitrary: h)
  case Nil
  then show ?case by simp
next
  case (Cons t ts)
  let ?h1 = "cycle_step h (Trigger t)"
  have h1: "?h1 = h\<lparr>skipped := skipped h @
       [case lastRunResult (scheduler h) of Some r \<Rightarrow> r | None \<Rightarrow> createEmptyResult t]\<rparr>"
    using Cons.prems by (simp add: cycle_enter_def)
  have r: "isRunning (scheduler ?h1)" using Cons.prems h1 by simp
  show ?case using Cons.IH [OF r] h1 by simp
qed

lemma overlapping_history:
  assumes idle: "\<not> isRunning s"
  shows "run_history s (Trigger t0 # map Trigger ts @ [Settle t1 settled])
     = \<lparr>scheduler = snd (cycle_settle t1 settled (s\<lparr>isRunning := True\<rparr>)),
        runs_started = 1,
        skipped = map (\<lambda>t. case lastRunResult s of Some r \<Rightarrow> r
                            | None \<Rightarrow> createEmptyResult t) ts,
        finished = [fst (cycle_settle t1 settled (s\<lparr>isRunning := True\<rparr>))]\<rparr>"
proof -
  let ?h0 = "\<lparr>scheduler = s, runs_started = 0, skipped = [], finished = []\<rparr>"
  let ?h1 = "\<lparr>scheduler = s\<lparr>isRunning := True\<rparr>, runs_started = 1, skipped = [],
              finished = []\<rparr>"
  have a: "cycle_step ?h0 (Trigger t0) = ?h1" using idle by (simp add: cycle_enter_def)
  have b: "foldl cycle_step ?h1 (map Trigger ts)
      = ?h1\<lparr>skipped := map (\<lambda>t. case lastRunResult s of Some r \<Rightarrow> r
                            | None \<Rightarrow> createEmptyResult t) ts\<rparr>"
    using triggers_while_running [of ?h1 ts] by simp
  let ?h2 = "?h1\<lparr>skipped := map (\<lambda>t. case lastRunResult s of Some r \<Rightarrow> r
                            | None \<Rightarrow> createEmptyResult t) ts\<rparr>"
  have c: "run_history s (Trigger t0 # map Trigger ts @ [Settle t1 settled])
      = cycle_step ?h2 (Settle t1 settled)"
    by (simp only: run_history_def foldl_Cons foldl_append foldl_Nil a b)
  show ?thesis unfolding c by (simp split: prod.splits)
qed

lemma cycle_settle_idle:
  "\<not> isRunning (snd (cycle_settle t1 settled s))
   \<and> lastRunResult (snd (cycle_settle t1 settled s)) = Some (fst (cycle_settle t1 settled s))"
  by (cases settled) (simp_all add: cycle_settle_def Let_def)

text \<open>
  C5 (amended). A call of \<open>executeScrapingCycle\<close> made while a cycle of the same
  scheduler is in progress starts no run and changes nothing in the scheduler: it returns
  at once the result of the last cycle that completed, or an all-zero empty result when
  none has. So when an idle scheduler is triggered, then triggered any number of times
  more before the run settles, exactly one run takes place; every later call has returned
  the previous (or empty) result, and the run's own result goes to the first call and
  becomes the last result.
\<close>

theorem overlapping_trigger_skipped:
  "(isRunning s \<longrightarrow>
      cycle_enter now s
        = (Skipped (case lastRunResult s of Some r \<Rightarrow> r | None \<Rightarrow> createEmptyResult now), s))
   \<and> (\<not> isRunning s \<longrightarrow>
        runs_started (run_history s (Trigger t0 # map Trigger ts @ [Settle t1 settled])) = 1
        \<and> skipped (run_history s (Trigger t0 # map Trigger ts @ [Settle t1 settled]))
            = map (\<lambda>t. case lastRunResult s of Some r \<Rightarrow> r | None \<Rightarrow> createEmptyResult t) ts
        \<and> finished (run_history s (Trigger t0 # map Trigger ts @ [Settle t1 settled]))
            = [fst (cycle_settle t1 settled (s\<lparr>isRunning := True\<rparr>))]
        \<and> \<not> isRunning (scheduler
              (run_history s (Trigger t0 # map Trigger ts @ [Settle t1 settled])))
        \<and> lastRunResult (scheduler
              (run_history s (Trigger t0 # map Trigger ts @ [Settle t1 settled])))
            = Some (fst (cycle_settle t1 settled (s\<lparr>isRunning := True\<rparr>))))"
proof (intro conjI impI)
  assume "isRunning s"
  then show "cycle_enter now s
        = (Skipped (case lastRunResult s of Some r \<Rightarrow> r | None \<Rightarrow> createEmptyResult now), s)"
    by (rule cycle_enter_running)
next
  assume idle: "\<not> isRunning s"
  note h = overlapping_history [OF idle, of t0 ts t1 settled]
  show "runs_started (run_history s (Trigger t0 # map Trigger ts @ [Settle t1 settled])) = 1"
    unfolding h by simp
  show "skipped (run_history s (Trigger t0 # map Trigger ts @ [Settle t1 settled]))
            = map (\<lambda>t. case lastRunResult s of Some r \<Rightarrow> r | None \<Rightarrow> createEmptyResult t) ts"
    unfolding h by simp
  show "finished (run_history s (Trigger t0 # map Trigger ts @ [Settle t1 settled]))
            = [fst (cycle_settle t1 settled (s\<lparr>isRunning := True\<rparr>))]"
    unfolding h by simp
  show "\<not> isRunning (scheduler
              (run_history s (Trigger t0 # map Trigger ts @ [Settle t1 settled])))"
    unfolding h using cycle_settle_idle by simp
  show "lastRunResult (scheduler
              (run_history s (Trigger t0 # map Trigger ts @ [Settle t1 settled])))
            = Some (fst (cycle_settle t1 settled (s\<lparr>isRunning := True\<rparr>)))"
    unfolding h using cycle_settle_idle by simp
qed

theorem overlapping_trigger_skipped_witness:
  "cycle_enter 5 (idle_scheduler\<lparr>isRunning := True, lastRunResult := Some example_result\<rparr>)
     = (Skipped example_result,
        idle_scheduler\<lparr>isRunning := True, lastRunResult := Some example_result\<rparr>)
   \<and> runs_started (run_history idle_scheduler
         (Trigger 0 # map Trigger [5, 6] @ [Settle 10 (Inr example_result)])) = 1
   \<and> skipped (run_history idle_scheduler
         (Trigger 0 # map Trigger [5, 6] @ [Settle 10 (Inr example_result)]))
       = [createEmptyResult 5, createEmptyResult 6]
   \<and> finished (run_history idle_scheduler
         (Trigger 0 # map Trigger [5, 6] @ [Settle 10 (Inr example_result)]))
       = [example_result]"
proof -
  let ?run = "idle_scheduler\<lparr>isRunning := True, lastRunResult := Some example_result\<rparr>"
  have r: "isRunning ?run" by simp
  have i: "\<not> isRunning idle_scheduler" by (simp add: idle_scheduler_def)
  have h1: "cycle_enter 5 ?run
      = (Skipped (case lastRunResult ?run of Some r \<Rightarrow> r | None \<Rightarrow> createEmptyResult 5), ?run)"
    by (rule overlapping_trigger_skipped [where s = ?run and now = 5, THEN conjunct1, THEN mp])
      (rule r)
  note h2 = overlapping_trigger_skipped [where s = idle_scheduler and ?t0.0 = 0
      and ts = "[5, 6]" and ?t1.0 = 10 and settled = "Inr example_result",
      THEN conjunct2, THEN mp, OF i]
  have l: "lastRunResult idle_scheduler = None" by (simp add: idle_scheduler_def)
  have c: "fst (cycle_settle 10 (Inr example_result) (idle_scheduler\<lparr>isRunning := True\<rparr>))
      = example_result" by (simp add: cycle_settle_def)
  show ?thesis
  proof (intro conjI)
    show "cycle_enter 5 ?run = (Skipped example_result, ?run)" using h1 by simp
    show "runs_started (run_history idle_scheduler
         (Trigger 0 # map Trigger [5, 6] @ [Settle 10 (Inr example_result)])) = 1"
      using h2 by blast
    show "skipped (run_history idle_scheduler
         (Trigger 0 # map Trigger [5, 6] @ [Settle 10 (Inr example_result)]))
       = [createEmptyResult 5, createEmptyResult 6]"
      using h2 [THEN conjunct2, THEN conjunct1] by (simp add: l)
    show "finished (run_history idle_scheduler
         (Trigger 0 # map Trigger [5, 6] @ [Settle 10 (Inr example_result)]))
       = [example_result]"
      using h2 [THEN conjunct2, THEN conjunct2, THEN conjunct1] by (simp add: c)
  qed
qed

text \<open>
  The claim as first stated (the second call returns the first call's eventual result)
  fails: on a scheduler that has not completed a cycle yet, the second call returns the
  empty result, while the first call's run ends with two sources and three events.
\<close>

theorem second_call_returns_first_result_counterexample:
  "\<not> isRunning idle_scheduler
   \<and> runs_started (run_history idle_scheduler
         [Trigger 0, Trigger 5, Settle 10 (Inr example_result)]) = 1
   \<and> finished (run_history idle_scheduler
         [Trigger 0, Trigger 5, Settle 10 (Inr example_result)]) = [example_result]
   \<and> skipped (run_history idle_scheduler
         [Trigger 0, Trigger 5, Settle 10 (Inr example_result)]) = [createEmptyResult 5]
   \<and> createEmptyResult 5 \<noteq> example_result"
  by (simp add: run_history_def idle_scheduler_def cycle_enter_def cycle_settle_def
      createEmptyResult_def example_result_def)

section \<open>Saving event documents\<close>

lemma event_pre_save_fields [simp]:
  "doc_id (event_pre_save x) = doc_id x"
  "status (event_pre_save x) = status x"
  "originalEventUrl (event_pre_save x) = originalEventUrl x"
  "sourceWebsite (event_pre_save x) = sourceWebsite x"
  by (simp_all add: event_pre_save_def Let_def)

lemma event_save_fields:
  assumes "event_save now isNew x db0 = (r, x', db')"
  shows "doc_id x' = doc_id x" "status x' = status x"
    "originalEventUrl x' = originalEventUrl x" "sourceWebsite x' = sourceWebsite x"
  using assms
  by (auto simp: event_save_def Let_def split: list.splits if_splits)

lemma event_save_failed:
  "event_save now isNew x db0 = (Some err, x', db') \<Longrightarrow> db' = db0"
  by (auto simp: event_save_def Let_def split: list.splits if_splits)

lemma event_save_insert:
  "event_save now True x db0 = (None, x', db') \<Longrightarrow> db' = db0 @ [x']"
  by (auto simp: event_save_def Let_def split: list.splits if_splits)

lemma event_save_update:
  "event_save now False x db0 = (None, x', db') \<Longrightarrow>
   db' = map (\<lambda>e. if doc_id e = doc_id x then x' else e) db0"
  by (auto simp: event_save_def Let_def split: list.splits if_splits)

lemma event_save_keeps:
  assumes "event_save now isNew x db0 = (r, x', db')" "d \<in> set db0"
    "isNew \<or> doc_id x \<noteq> doc_id d"
  shows "d \<in> set db'"
proof (cases r)
  case None
  show ?thesis
  proof (cases isNew)
    case True
    then show ?thesis using event_save_insert [of now x db0 x' db'] assms(1,2) None by simp
  next
    case False
    then have "db' = map (\<lambda>e. if doc_id e = doc_id x then x' else e) db0"
      using event_save_update [of now x db0 x' db'] assms(1) None by simp
    then show ?thesis using assms(2,3) False by (auto simp: image_iff intro!: bexI [of _ d])
  qed
next
  case (Some err)
  then show ?thesis using event_save_failed [of now isNew x db0 _ x' db'] assms(1,2) by simp
qed

lemma event_save_ids:
  assumes "event_save now isNew x db0 = (r, x', db')"
  shows "doc_id ` set db0 \<subseteq> doc_id ` set db'"
proof (cases r)
  case None
  show ?thesis
  proof (cases isNew)
    case True
    then show ?thesis using event_save_insert [of now x db0 x' db'] assms None by auto
  next
    case False
    then have e: "db' = map (\<lambda>e. if doc_id e = doc_id x then x' else e) db0"
      using event_save_update [of now x db0 x' db'] assms None by simp
    have "doc_id x' = doc_id x" using assms by (rule event_save_fields)
    then have "map doc_id db' = map doc_id db0" unfolding e by (induction db0) auto
    then show ?thesis by (metis set_map subset_refl)
  qed
next
  case (Some err)
  then show ?thesis using event_save_failed [of now isNew x db0 _ x' db'] assms by simp
qed

lemma fold_max_ge: "a \<le> fold max xs (a::nat)"
  by (induction xs arbitrary: a) (auto intro: order_trans [OF max.cobounded2])

lemma fold_max_mem: "x \<in> set xs \<Longrightarrow> x \<le> fold max xs (a::nat)"
proof (induction xs arbitrary: a)
  case Nil
  then show ?case by simp
next
  case (Cons y ys)
  show ?case
  proof (cases "x = y")
    case True
    have "max y a \<le> fold max ys (max y a)" by (rule fold_max_ge)
    then show ?thesis using True by simp
  next
    case False
    then show ?thesis using Cons by simp
  qed
qed

lemma fresh_id_fresh: "x \<in> set db0 \<Longrightarrow> doc_id x < fresh_id db0"
  using fold_max_mem [of "doc_id x" "map doc_id db0" 0] by (simp add: fresh_id_def)

lemma fresh_id_notin: "fresh_id db0 \<notin> doc_id ` set db0"
  using fresh_id_fresh by fastforce

section \<open>The lookup map\<close>

lemma build_map_sound:
  "build_map i es m u = Some j \<Longrightarrow>
     m u = Some j \<or> (i \<le> j \<and> j < i + length es \<and> originalEventUrl (es ! (j - i)) = u)"
proof (induction es arbitrary: i m)
  case Nil
  then show ?case by simp
next
  case (Cons e es)
  from Cons.prems have "build_map (Suc i) es (m(originalEventUrl e \<mapsto> i)) u = Some j" by simp
  then consider "(m(originalEventUrl e \<mapsto> i)) u = Some j"
    | "Suc i \<le> j" "j < Suc i + length es" "originalEventUrl (es ! (j - Suc i)) = u"
    using Cons.IH by blast
  then show ?case
  proof cases
    case 1
    then show ?thesis by (auto split: if_splits)
  next
    case 2
    then have "(e # es) ! (j - i) = es ! (j - Suc i)" by (simp add: nth_Cons')
    then show ?thesis using 2 by auto
  qed
qed

lemma existingEventMap_sound:
  "existingEventMap es u = Some j \<Longrightarrow> j < length es \<and> originalEventUrl (es ! j) = u"
  using build_map_sound [of 0 es Map.empty u j] by (simp add: existingEventMap_def)

section \<open>A stored record that the pass must not touch\<close>

lemma untouched_nth:
  assumes "untouched d mem0 st" "other_index d mem0 i"
  shows "i < length (mem st)" "doc_id (mem st ! i) \<noteq> doc_id d"
proof -
  have m: "map doc_id (mem st) = map doc_id mem0" using assms(1) by (simp add: untouched_def)
  have l: "length (mem st) = length mem0" using m by (metis length_map)
  show "i < length (mem st)" using l assms(2) by (simp add: other_index_def)
  then have "doc_id (mem st ! i) = doc_id (mem0 ! i)"
    using m l by (metis nth_map)
  then show "doc_id (mem st ! i) \<noteq> doc_id d" using assms(2) by (simp add: other_index_def)
qed

lemma untouched_update:
  assumes u: "untouched d mem0 st" and o: "other_index d mem0 i"
    and sv: "event_save now False x (db st) = (r, x', db')"
    and x: "doc_id x = doc_id (mem st ! i)"
  shows "untouched d mem0 (st\<lparr>mem := (mem st)[i := x'], db := db'\<rparr>)"
    and "untouched d mem0 (st\<lparr>mem := (mem st)[i := x']\<rparr>)"
    and "eventId c = doc_id x' \<Longrightarrow>
         untouched d mem0 (push_change c (st\<lparr>mem := (mem st)[i := x'], db := db'\<rparr>))"
proof -
  have i: "i < length (mem st)" and ne: "doc_id (mem st ! i) \<noteq> doc_id d"
    using untouched_nth [OF u o] by simp_all
  have id: "doc_id x' = doc_id x" using sv by (rule event_save_fields)
  have m: "map doc_id ((mem st)[i := x']) = map doc_id mem0"
  proof -
    have "map doc_id ((mem st)[i := x']) = (map doc_id (mem st))[i := doc_id x']"
      by (rule map_update)
    also have "\<dots> = map doc_id (mem st)" using id x i by (simp add: list_update_same_conv)
    finally show ?thesis using u by (simp add: untouched_def)
  qed
  have k: "d \<in> set db'"
    using event_save_keeps [OF sv] u x ne by (simp add: untouched_def)
  show "untouched d mem0 (st\<lparr>mem := (mem st)[i := x'], db := db'\<rparr>)"
    using u m k by (simp add: untouched_def)
  show "untouched d mem0 (st\<lparr>mem := (mem st)[i := x']\<rparr>)"
    using u m by (simp add: untouched_def)
  show "eventId c = doc_id x' \<Longrightarrow>
         untouched d mem0 (push_change c (st\<lparr>mem := (mem st)[i := x'], db := db'\<rparr>))"
    using u m k id x ne by (simp add: untouched_def push_change_def)
qed

lemma apply_new_untouched:
  "untouched d mem0 st \<Longrightarrow> untouched d mem0 (apply_new now ns st)"
proof (induction ns arbitrary: st)
  case Nil
  then show ?case by simp
next
  case (Cons n ns)
  obtain r x' db' where sv:
    "event_save now True (new_Event (fresh_id (db st)) n NEW) (db st) = (r, x', db')"
    by (cases "event_save now True (new_Event (fresh_id (db st)) n NEW) (db st)")
  show ?case
  proof (cases r)
    case None
    have din: "d \<in> set (db st)" using Cons.prems by (simp add: untouched_def)
    have k: "d \<in> set db'" using event_save_keeps [OF sv din] by simp
    have "doc_id x' = doc_id (new_Event (fresh_id (db st)) n NEW)"
      using sv by (rule event_save_fields)
    then have "doc_id x' = fresh_id (db st)" by (simp add: new_Event_def)
    then have ne: "doc_id x' \<noteq> doc_id d" using fresh_id_fresh [OF din] by simp
    have "untouched d mem0
        (push_change
               \<lparr>eventId = doc_id x', previousStatus = NEW, newStatus = NEW,
                change_reason = ''Event created from scraping'', timestamp = now,
                metadata = [(''sourceWebsite'', sourceWebsite n)]\<rparr>
               (st\<lparr>db := db'\<rparr>))"
      using Cons.prems k ne by (simp add: untouched_def push_change_def)
    then show ?thesis using Cons.IH sv None by simp
  next
    case (Some err)
    then show ?thesis using Cons.IH [OF Cons.prems] sv by simp
  qed
qed

lemma apply_updated_untouched:
  "untouched d mem0 st \<Longrightarrow> list_all (\<lambda>(i, u). other_index d mem0 i) us \<Longrightarrow>
   untouched d mem0 (apply_updated now us st)"
proof (induction us arbitrary: st)
  case Nil
  then show ?case by simp
next
  case (Cons p us)
  obtain i u where p: "p = (i, u)" by (cases p)
  have o: "other_index d mem0 i" and rest: "list_all (\<lambda>(i, u). other_index d mem0 i) us"
    using Cons.prems(2) p by simp_all
  obtain r x' db' where sv:
    "event_save now False (assign_event (mem st ! i) u UPDATED now) (db st) = (r, x', db')"
    by (cases "event_save now False (assign_event (mem st ! i) u UPDATED now) (db st)")
  have x: "doc_id (assign_event (mem st ! i) u UPDATED now) = doc_id (mem st ! i)"
    by (simp add: assign_event_def)
  note un = untouched_update [OF Cons.prems(1) o sv x]
  show ?case
  proof (cases r)
    case None
    then show ?thesis using Cons.IH [OF un(3) rest] sv p by (simp add: Let_def)
  next
    case (Some err)
    then show ?thesis using Cons.IH [OF un(2) rest] sv p by (simp add: Let_def)
  qed
qed

lemma apply_inactive_untouched:
  "untouched d mem0 st \<Longrightarrow> list_all (other_index d mem0) js \<Longrightarrow>
   untouched d mem0 (apply_inactive now js st)"
proof (induction js arbitrary: st)
  case Nil
  then show ?case by simp
next
  case (Cons j js)
  have o: "other_index d mem0 j" and rest: "list_all (other_index d mem0) js"
    using Cons.prems(2) by simp_all
  obtain r x' db' where sv:
    "event_save now False ((mem st ! j)\<lparr>status := INACTIVE, lastScrapedAt := now\<rparr>) (db st)
       = (r, x', db')"
    by (cases "event_save now False ((mem st ! j)\<lparr>status := INACTIVE, lastScrapedAt := now\<rparr>)
                 (db st)")
  have x: "doc_id ((mem st ! j)\<lparr>status := INACTIVE, lastScrapedAt := now\<rparr>) = doc_id (mem st ! j)"
    by simp
  note un = untouched_update [OF Cons.prems(1) o sv x]
  show ?case
  proof (cases r)
    case None
    then show ?thesis using Cons.IH [OF un(3) rest] sv by (simp add: Let_def)
  next
    case (Some err)
    then show ?thesis using Cons.IH [OF un(2) rest] sv by (simp add: Let_def)
  qed
qed

lemma list_update_same_field:
  assumes "i < length xs" "f x = f (xs ! i)"
  shows "map f (xs[i := x]) = map f xs"
proof -
  have "map f (xs[i := x]) = (map f xs)[i := f x]" by (rule map_update)
  also have "\<dots> = map f xs" using assms by (simp add: list_update_same_conv)
  finally show ?thesis .
qed

lemma detect_changes_untouched:
  assumes good: "list_all (\<lambda>s. case emap (originalEventUrl s) of None \<Rightarrow> True
                                | Some i \<Rightarrow> other_index d mem0 i) scraped"
  shows "untouched d mem0 st \<Longrightarrow>
     list_all (\<lambda>(i, u). other_index d mem0 i) (r_updatedEvents st) \<Longrightarrow>
     detect_changes now emap scraped st = (r, st') \<Longrightarrow>
     untouched d mem0 st'
     \<and> list_all (\<lambda>(i, u). other_index d mem0 i) (r_updatedEvents st')
     \<and> map status (mem st') = map status (mem st)
     \<and> r_statusChanges st' = r_statusChanges st \<and> logs st' = logs st"
  using good
proof (induction scraped arbitrary: st)
  case Nil
  then show ?case by simp
next
  case (Cons s scraped)
  have g: "list_all (\<lambda>s. case emap (originalEventUrl s) of None \<Rightarrow> True
                                | Some i \<Rightarrow> other_index d mem0 i) scraped"
    using Cons.prems(4) by simp
  show ?case
  proof (cases "emap (originalEventUrl s)")
    case None
    let ?st1 = "st\<lparr>r_newEvents := r_newEvents st @ [s]\<rparr>"
    have u1: "untouched d mem0 ?st1" using Cons.prems(1) by (simp add: untouched_def)
    have l1: "list_all (\<lambda>(i, u). other_index d mem0 i) (r_updatedEvents ?st1)"
      using Cons.prems(2) by simp
    have d1: "detect_changes now emap scraped ?st1 = (r, st')"
      using Cons.prems(3) None by simp
    show ?thesis using Cons.IH [OF u1 l1 d1 g] by simp
  next
    case (Some i)
    have o: "other_index d mem0 i" using Cons.prems(4) Some by simp
    show ?thesis
    proof (cases "detectEventChanges (mem st ! i) s")
      case True
      let ?st1 = "st\<lparr>r_updatedEvents := r_updatedEvents st @ [(i, s)]\<rparr>"
      have u1: "untouched d mem0 ?st1" using Cons.prems(1) by (simp add: untouched_def)
      have l1: "list_all (\<lambda>(i, u). other_index d mem0 i) (r_updatedEvents ?st1)"
        using Cons.prems(2) o by simp
      have d1: "detect_changes now emap scraped ?st1 = (r, st')"
        using Cons.prems(3) Some True by simp
      show ?thesis using Cons.IH [OF u1 l1 d1 g] by simp
    next
      case False
      obtain e x' db' where sv:
        "event_save now False ((mem st ! i)\<lparr>lastScrapedAt := now\<rparr>) (db st) = (e, x', db')"
        by (cases "event_save now False ((mem st ! i)\<lparr>lastScrapedAt := now\<rparr>) (db st)")
      have x: "doc_id ((mem st ! i)\<lparr>lastScrapedAt := now\<rparr>) = doc_id (mem st ! i)" by simp
      let ?st1 = "st\<lparr>mem := (mem st)[i := x'], db := db'\<rparr>"
      have u1: "untouched d mem0 ?st1"
        by (rule untouched_update(1) [OF Cons.prems(1) o sv x])
      have l1: "list_all (\<lambda>(i, u). other_index d mem0 i) (r_updatedEvents ?st1)"
        using Cons.prems(2) by simp
      have i: "i < length (mem st)" using untouched_nth [OF Cons.prems(1) o] by simp
      have "status x' = status ((mem st ! i)\<lparr>lastScrapedAt := now\<rparr>)"
        using sv by (rule event_save_fields)
      then have st: "map status (mem ?st1) = map status (mem st)"
        using list_update_same_field [OF i, of status x'] by simp
      show ?thesis
      proof (cases e)
        case None
        have d1: "detect_changes now emap scraped ?st1 = (r, st')"
          using Cons.prems(3) Some False sv None by simp
        show ?thesis using Cons.IH [OF u1 l1 d1 g] st by simp
      next
        case (Some err)
        have "st' = ?st1" using Cons.prems(3) \<open>emap (originalEventUrl s) = Some i\<close> False sv Some
          by simp
        then show ?thesis using u1 l1 st by simp
      qed
    qed
  qed
qed

lemma distinct_ids_same:
  assumes "distinct (map doc_id xs)" "x \<in> set xs" "y \<in> set xs" "doc_id x = doc_id y"
  shows "x = y"
  using assms by (meson distinct_map inj_onD)

section \<open>What the apply loops leave alone\<close>

lemma push_change_fields [simp]:
  "r_newEvents (push_change c st) = r_newEvents st"
  "r_updatedEvents (push_change c st) = r_updatedEvents st"
  "r_inactiveEvents (push_change c st) = r_inactiveEvents st"
  "mem (push_change c st) = mem st"
  "db (push_change c st) = db st"
  "r_statusChanges (push_change c st) = r_statusChanges st @ [c]"
  "logs (push_change c st) = logs st @ [c]"
  by (simp_all add: push_change_def)

lemma apply_new_lists:
  "r_newEvents (apply_new now ns st) = r_newEvents st
   \<and> r_updatedEvents (apply_new now ns st) = r_updatedEvents st
   \<and> r_inactiveEvents (apply_new now ns st) = r_inactiveEvents st
   \<and> mem (apply_new now ns st) = mem st"
proof (induction ns arbitrary: st)
  case Nil
  then show ?case by simp
next
  case (Cons n ns)
  obtain r x' db' where sv:
    "event_save now True (new_Event (fresh_id (db st)) n NEW) (db st) = (r, x', db')"
    by (cases "event_save now True (new_Event (fresh_id (db st)) n NEW) (db st)")
  show ?case by (cases r) (simp_all add: sv Cons.IH)
qed

lemma apply_updated_lists:
  "r_newEvents (apply_updated now us st) = r_newEvents st
   \<and> r_updatedEvents (apply_updated now us st) = r_updatedEvents st
   \<and> r_inactiveEvents (apply_updated now us st) = r_inactiveEvents st"
proof (induction us arbitrary: st)
  case Nil
  then show ?case by simp
next
  case (Cons p us)
  obtain i u where p: "p = (i, u)" by (cases p)
  obtain r x' db' where sv:
    "event_save now False (assign_event (mem st ! i) u UPDATED now) (db st) = (r, x', db')"
    by (cases "event_save now False (assign_event (mem st ! i) u UPDATED now) (db st)")
  show ?case by (cases r) (simp_all add: p sv Cons.IH Let_def)
qed

lemma apply_inactive_lists:
  "r_newEvents (apply_inactive now js st) = r_newEvents st
   \<and> r_updatedEvents (apply_inactive now js st) = r_updatedEvents st
   \<and> r_inactiveEvents (apply_inactive now js st) = r_inactiveEvents st"
proof (induction js arbitrary: st)
  case Nil
  then show ?case by simp
next
  case (Cons j js)
  obtain r x' db' where sv:
    "event_save now False ((mem st ! j)\<lparr>status := INACTIVE, lastScrapedAt := now\<rparr>) (db st)
       = (r, x', db')"
    by (cases "event_save now False ((mem st ! j)\<lparr>status := INACTIVE, lastScrapedAt := now\<rparr>)
                 (db st)")
  show ?case by (cases r) (simp_all add: sv Cons.IH Let_def)
qed

lemma applyStatusChanges_lists:
  "r_newEvents (applyStatusChanges now st) = r_newEvents st
   \<and> r_updatedEvents (applyStatusChanges now st) = r_updatedEvents st
   \<and> r_inactiveEvents (applyStatusChanges now st) = r_inactiveEvents st"
  by (simp add: applyStatusChanges_def apply_new_lists apply_updated_lists apply_inactive_lists)

lemma apply_new_logs:
  "logs st = L @ r_statusChanges st \<Longrightarrow>
   logs (apply_new now ns st) = L @ r_statusChanges (apply_new now ns st)"
proof (induction ns arbitrary: st)
  case Nil
  then show ?case by simp
next
  case (Cons n ns)
  obtain r x' db' where sv:
    "event_save now True (new_Event (fresh_id (db st)) n NEW) (db st) = (r, x', db')"
    by (cases "event_save now True (new_Event (fresh_id (db st)) n NEW) (db st)")
  show ?case using Cons.prems by (cases r) (simp_all add: sv Cons.IH)
qed

lemma apply_updated_logs:
  "logs st = L @ r_statusChanges st \<Longrightarrow>
   logs (apply_updated now us st) = L @ r_statusChanges (apply_updated now us st)"
proof (induction us arbitrary: st)
  case Nil
  then show ?case by simp
next
  case (Cons p us)
  obtain i u where p: "p = (i, u)" by (cases p)
  obtain r x' db' where sv:
    "event_save now False (assign_event (mem st ! i) u UPDATED now) (db st) = (r, x', db')"
    by (cases "event_save now False (assign_event (mem st ! i) u UPDATED now) (db st)")
  show ?case using Cons.prems by (cases r) (simp_all add: p sv Cons.IH Let_def)
qed

lemma apply_inactive_logs:
  "logs st = L @ r_statusChanges st \<Longrightarrow>
   logs (apply_inactive now js st) = L @ r_statusChanges (apply_inactive now js st)"
proof (induction js arbitrary: st)
  case Nil
  then show ?case by simp
next
  case (Cons j js)
  obtain r x' db' where sv:
    "event_save now False ((mem st ! j)\<lparr>status := INACTIVE, lastScrapedAt := now\<rparr>) (db st)
       = (r, x', db')"
    by (cases "event_save now False ((mem st ! j)\<lparr>status := INACTIVE, lastScrapedAt := now\<rparr>)
                 (db st)")
  show ?case using Cons.prems by (cases r) (simp_all add: sv Cons.IH Let_def)
qed

lemma applyStatusChanges_logs:
  "logs st = L @ r_statusChanges st \<Longrightarrow>
   logs (applyStatusChanges now st) = L @ r_statusChanges (applyStatusChanges now st)"
  unfolding applyStatusChanges_def
  by (intro apply_inactive_logs apply_updated_logs apply_new_logs)

lemma applyStatusChanges_untouched:
  assumes "untouched d mem0 st"
    "list_all (\<lambda>(i, u). other_index d mem0 i) (r_updatedEvents st)"
    "list_all (other_index d mem0) (r_inactiveEvents st)"
  shows "untouched d mem0 (applyStatusChanges now st)"
proof -
  let ?s1 = "apply_new now (r_newEvents st) st"
  let ?s2 = "apply_updated now (r_updatedEvents st) ?s1"
  have u1: "untouched d mem0 ?s1" using assms(1) by (rule apply_new_untouched)
  have u2: "untouched d mem0 ?s2" using u1 assms(2) by (rule apply_updated_untouched)
  show ?thesis unfolding applyStatusChanges_def using u2 assms(3)
    by (rule apply_inactive_untouched)
qed

section \<open>Creation entries\<close>

lemma event_save_update_ids:
  assumes "event_save now False x db0 = (r, x', db')"
  shows "map doc_id db' = map doc_id db0"
proof (cases r)
  case None
  have e: "db' = map (\<lambda>e. if doc_id e = doc_id x then x' else e) db0"
    using event_save_update [of now x db0 x' db'] assms None by simp
  have "doc_id x' = doc_id x" using assms by (rule event_save_fields)
  then show ?thesis unfolding e by (induction db0) auto
next
  case (Some err)
  then show ?thesis using event_save_failed [of now False x db0 _ x' db'] assms by simp
qed

lemma shape_update:
  assumes sh: "shape db0 st" and sv: "event_save now False x (db st) = (r, x', db')"
  shows "shape db0 (st\<lparr>mem := m, db := db'\<rparr>)"
    and "change_reason c \<noteq> ''Event created from scraping'' \<Longrightarrow>
         shape db0 (push_change c (st\<lparr>mem := m, db := db'\<rparr>))"
proof -
  have ids: "map doc_id db' = map doc_id (db st)" using sv by (rule event_save_update_ids)
  have set_ids: "doc_id ` set db' = doc_id ` set (db st)" by (metis ids set_map)
  have old: "\<And>y. y \<in> set (db st) \<Longrightarrow> doc_id y \<in> doc_id ` set db0
                      \<or> list_ex (\<lambda>c. eventId c = doc_id y \<and> creation_entry c)
                           (r_statusChanges st)"
    using sh by (simp add: shape_def list_all_iff)
  have new: "doc_id y \<in> doc_id ` set db0
                      \<or> list_ex (\<lambda>c. eventId c = doc_id y \<and> creation_entry c)
                           (r_statusChanges st)" if "y \<in> set db'" for y
  proof -
    have "doc_id y \<in> doc_id ` set (db st)" using that set_ids by blast
    then obtain z where "z \<in> set (db st)" "doc_id z = doc_id y" by auto
    then show ?thesis using old [of z] by simp
  qed
  show a: "shape db0 (st\<lparr>mem := m, db := db'\<rparr>)"
    using sh ids new by (simp add: shape_def list_all_iff)
  show "change_reason c \<noteq> ''Event created from scraping'' \<Longrightarrow>
         shape db0 (push_change c (st\<lparr>mem := m, db := db'\<rparr>))"
    using a by (auto simp: shape_def list_all_iff list_ex_iff creation_pair_def)
qed

lemma shape_mem: "shape db0 st \<Longrightarrow> shape db0 (st\<lparr>mem := m\<rparr>)"
  by (simp add: shape_def)

lemma apply_new_shape: "shape db0 st \<Longrightarrow> shape db0 (apply_new now ns st)"
proof (induction ns arbitrary: st)
  case Nil
  then show ?case by simp
next
  case (Cons n ns)
  obtain r x' db' where sv:
    "event_save now True (new_Event (fresh_id (db st)) n NEW) (db st) = (r, x', db')"
    by (cases "event_save now True (new_Event (fresh_id (db st)) n NEW) (db st)")
  show ?case
  proof (cases r)
    case None
    let ?c = "\<lparr>eventId = doc_id x', previousStatus = NEW, newStatus = NEW,
                change_reason = ''Event created from scraping'', timestamp = now,
                metadata = [(''sourceWebsite'', sourceWebsite n)]\<rparr>"
    have db': "db' = db st @ [x']"
      using event_save_insert [of now _ "db st" x' db'] sv None by simp
    have "doc_id x' = doc_id (new_Event (fresh_id (db st)) n NEW)"
      using sv by (rule event_save_fields)
    then have id: "doc_id x' = fresh_id (db st)" by (simp add: new_Event_def)
    have fresh: "doc_id x' \<notin> doc_id ` set (db st)" using id fresh_id_notin by simp
    have ce: "creation_entry ?c" by (simp add: creation_entry_def)
    have "shape db0 (push_change ?c (st\<lparr>db := db'\<rparr>))"
      using Cons.prems fresh ce unfolding db'
      by (auto simp: shape_def list_all_iff list_ex_iff creation_pair_def)
    then show ?thesis using Cons.IH sv None by simp
  next
    case (Some err)
    then show ?thesis using Cons.IH [OF Cons.prems] sv by simp
  qed
qed

lemma apply_updated_shape: "shape db0 st \<Longrightarrow> shape db0 (apply_updated now us st)"
proof (induction us arbitrary: st)
  case Nil
  then show ?case by simp
next
  case (Cons p us)
  obtain i u where p: "p = (i, u)" by (cases p)
  obtain r x' db' where sv:
    "event_save now False (assign_event (mem st ! i) u UPDATED now) (db st) = (r, x', db')"
    by (cases "event_save now False (assign_event (mem st ! i) u UPDATED now) (db st)")
  show ?case
  proof (cases r)
    case None
    have "shape db0 (push_change
                  \<lparr>eventId = doc_id x', previousStatus = status (mem st ! i),
                   newStatus = UPDATED,
                   change_reason = ''Event data changed during scraping'', timestamp = now,
                   metadata = [(''sourceWebsite'', sourceWebsite u)]\<rparr>
                  (st\<lparr>mem := (mem st)[i := x'], db := db'\<rparr>))"
      by (rule shape_update(2) [OF Cons.prems sv]) simp
    then show ?thesis using Cons.IH sv p None by (simp add: Let_def)
  next
    case (Some err)
    then show ?thesis using Cons.IH [OF shape_mem [OF Cons.prems]] sv p by (simp add: Let_def)
  qed
qed

lemma apply_inactive_shape: "shape db0 st \<Longrightarrow> shape db0 (apply_inactive now js st)"
proof (induction js arbitrary: st)
  case Nil
  then show ?case by simp
next
  case (Cons j js)
  obtain r x' db' where sv:
    "event_save now False ((mem st ! j)\<lparr>status := INACTIVE, lastScrapedAt := now\<rparr>) (db st)
       = (r, x', db')"
    by (cases "event_save now False ((mem st ! j)\<lparr>status := INACTIVE, lastScrapedAt := now\<rparr>)
                 (db st)")
  show ?case
  proof (cases r)
    case None
    have "shape db0 (push_change
                  \<lparr>eventId = doc_id x', previousStatus = status (mem st ! j),
                   newStatus = INACTIVE,
                   change_reason = ''Event no longer found on source website'',
                   timestamp = now,
                   metadata = [(''sourceWebsite'', sourceWebsite x')]\<rparr>
                  (st\<lparr>mem := (mem st)[j := x'], db := db'\<rparr>))"
      by (rule shape_update(2) [OF Cons.prems sv]) simp
    then show ?thesis using Cons.IH sv None by (simp add: Let_def)
  next
    case (Some err)
    then show ?thesis using Cons.IH [OF shape_mem [OF Cons.prems]] sv by (simp add: Let_def)
  qed
qed

lemma detect_changes_shape:
  "shape db0 st \<Longrightarrow> detect_changes now emap scraped st = (r, st') \<Longrightarrow> shape db0 st'"
proof (induction scraped arbitrary: st)
  case Nil
  then show ?case by simp
next
  case (Cons s scraped)
  show ?case
  proof (cases "emap (originalEventUrl s)")
    case None
    have "shape db0 (st\<lparr>r_newEvents := r_newEvents st @ [s]\<rparr>)"
      using Cons.prems(1) by (simp add: shape_def)
    then show ?thesis using Cons.IH Cons.prems(2) None by simp
  next
    case (Some i)
    show ?thesis
    proof (cases "detectEventChanges (mem st ! i) s")
      case True
      have "shape db0 (st\<lparr>r_updatedEvents := r_updatedEvents st @ [(i, s)]\<rparr>)"
        using Cons.prems(1) by (simp add: shape_def)
      then show ?thesis using Cons.IH Cons.prems(2) Some True by simp
    next
      case False
      obtain e x' db' where sv:
        "event_save now False ((mem st ! i)\<lparr>lastScrapedAt := now\<rparr>) (db st) = (e, x', db')"
        by (cases "event_save now False ((mem st ! i)\<lparr>lastScrapedAt := now\<rparr>) (db st)")
      have sh: "shape db0 (st\<lparr>mem := (mem st)[i := x'], db := db'\<rparr>)"
        by (rule shape_update(1) [OF Cons.prems(1) sv])
      show ?thesis
      proof (cases e)
        case None
        then show ?thesis using Cons.IH [OF sh] Cons.prems(2) Some False sv by simp
      next
        case (Some err)
        then show ?thesis
          using sh Cons.prems(2) \<open>emap (originalEventUrl s) = Some i\<close> False sv by auto
      qed
    qed
  qed
qed

lemma applyStatusChanges_shape: "shape db0 st \<Longrightarrow> shape db0 (applyStatusChanges now st)"
  unfolding applyStatusChanges_def
  by (intro apply_inactive_shape apply_updated_shape apply_new_shape)

lemma processScrapedEvents_shape:
  assumes run: "processScrapedEvents now scrapedEvents source w = (r, w')"
  obtains st where "shape (events_db w) st" "events_db w' = db st"
    "case r of Inl err \<Rightarrow> True | Inr res \<Rightarrow> statusChanges res = r_statusChanges st"
proof -
  let ?mem0 = "filter (\<lambda>e. sourceWebsite e = source) (events_db w)"
  let ?st0 = "\<lparr>mem = ?mem0, db = events_db w, logs = statusChangeLogs w,
                 r_newEvents = [], r_updatedEvents = [], r_inactiveEvents = [],
                 r_statusChanges = []\<rparr>"
  have s0: "shape (events_db w) ?st0" by (simp add: shape_def list_all_iff)
  obtain e st where det:
    "detect_changes now (existingEventMap ?mem0) scrapedEvents ?st0 = (e, st)"
    by (cases "detect_changes now (existingEventMap ?mem0) scrapedEvents ?st0")
  have s1: "shape (events_db w) st" using s0 det by (rule detect_changes_shape)
  show ?thesis
  proof (cases e)
    case (Some err)
    then have "r = Inl err" "w' = w\<lparr>events_db := db st, statusChangeLogs := logs st\<rparr>"
      using run det by (simp_all add: processScrapedEvents_def Let_def)
    then show ?thesis using that [of st] s1 by simp
  next
    case None
    let ?st1 = "st\<lparr>r_inactiveEvents := detect_inactive scrapedEvents (mem st)\<rparr>"
    let ?st2 = "applyStatusChanges now ?st1"
    have r: "r = Inr (result_of ?st2)"
      and w': "w' = w\<lparr>events_db := db ?st2, statusChangeLogs := logs ?st2\<rparr>"
      using run det None by (simp_all add: processScrapedEvents_def Let_def)
    have "shape (events_db w) ?st1" using s1 by (simp add: shape_def)
    then have "shape (events_db w) ?st2" by (rule applyStatusChanges_shape)
    then show ?thesis using that [of ?st2] r w' by (simp add: result_of_def)
  qed
qed

text \<open>
  C10. In the result of \<open>processScrapedEvents\<close>, every status-change entry written for a
  creation (reason "Event created from scraping") has previous status \<open>new\<close> and new
  status \<open>new\<close>, and every record the pass added to the store has such an entry under
  its id; the pair (new, new) is not in the transition table, and
  \<open>validateStatusTransition\<close> rejects it.
\<close>

theorem creation_entries_record_self_pair:
  assumes run: "processScrapedEvents now scrapedEvents source w = (Inr res, w')"
  shows "list_all (\<lambda>c. if change_reason c = ''Event created from scraping''
                        then previousStatus c = NEW \<and> newStatus c = NEW else True)
           (statusChanges res)
     \<and> list_all (\<lambda>x. doc_id x \<in> doc_id ` set (events_db w)
                      \<or> list_ex (\<lambda>c. eventId c = doc_id x
                                      \<and> change_reason c = ''Event created from scraping''
                                      \<and> previousStatus c = NEW \<and> newStatus c = NEW)
                           (statusChanges res)) (events_db w')
     \<and> (NEW, NEW) \<notin> spec_transition_table
     \<and> \<not> valid (validateStatusTransition NEW NEW)"
proof -
  obtain st where sh: "shape (events_db w) st" and db: "events_db w' = db st"
    and ch: "statusChanges res = r_statusChanges st"
    using processScrapedEvents_shape [OF run] by auto
  have a: "list_all (\<lambda>c. if change_reason c = ''Event created from scraping''
                        then previousStatus c = NEW \<and> newStatus c = NEW else True)
           (statusChanges res)"
    using sh ch by (simp add: shape_def creation_pair_def list_all_iff)
  have b: "list_all (\<lambda>x. doc_id x \<in> doc_id ` set (events_db w)
                      \<or> list_ex (\<lambda>c. eventId c = doc_id x
                                      \<and> change_reason c = ''Event created from scraping''
                                      \<and> previousStatus c = NEW \<and> newStatus c = NEW)
                           (statusChanges res)) (events_db w')"
    using sh ch db by (simp add: shape_def creation_entry_def list_all_iff)
  have c: "(NEW, NEW) \<notin> spec_transition_table" by (simp add: spec_transition_table_def)
  have d: "\<not> valid (validateStatusTransition NEW NEW)"
    by (simp add: validateStatusTransition_def)
  show ?thesis using a b c d by blast
qed

lemma processScrapedEvents_distinct:
  assumes "processScrapedEvents now scrapedEvents source w = (r, w')"
    "distinct (map doc_id (events_db w))"
  shows "distinct (map doc_id (events_db w'))"
proof -
  obtain st where "shape (events_db w) st" "events_db w' = db st"
    using processScrapedEvents_shape [OF assms(1)] by auto
  then show ?thesis using assms(2) by (simp add: shape_def)
qed

section \<open>Terminal-state protection\<close>

lemma lookup_other_index:
  assumes d: "d \<in> set db0" and dist: "distinct (map doc_id db0)"
    and absent: "originalEventUrl d \<notin> set (map originalEventUrl scraped)"
    and sub: "set mem0 \<subseteq> set db0"
  shows "list_all (\<lambda>s. case existingEventMap mem0 (originalEventUrl s) of None \<Rightarrow> True
                        | Some i \<Rightarrow> other_index d mem0 i) scraped"
proof -
  have "other_index d mem0 i"
    if s: "s \<in> set scraped" and l: "existingEventMap mem0 (originalEventUrl s) = Some i" for s i
  proof -
    have i: "i < length mem0" and u: "originalEventUrl (mem0 ! i) = originalEventUrl s"
      using existingEventMap_sound [OF l] by simp_all
    have "originalEventUrl s \<in> set (map originalEventUrl scraped)" using s by simp
    then have "originalEventUrl s \<noteq> originalEventUrl d" using absent by metis
    then have ne: "mem0 ! i \<noteq> d" using u by metis
    have "mem0 ! i \<in> set db0" using i sub by auto
    then have "doc_id (mem0 ! i) \<noteq> doc_id d"
      using distinct_ids_same [OF dist _ d] ne by blast
    then show ?thesis using i by (simp add: other_index_def)
  qed
  then show ?thesis by (auto simp: list_all_iff split: option.splits)
qed

lemma inactive_other_index:
  assumes d: "d \<in> set db0" and dist: "distinct (map doc_id db0)"
    and terminal: "status d = IMPORTED \<or> status d = INACTIVE"
    and sub: "set mem0 \<subseteq> set db0"
    and ids: "map doc_id mem1 = map doc_id mem0"
    and sts: "map status mem1 = map status mem0"
  shows "list_all (other_index d mem0) (detect_inactive scraped mem1)"
proof -
  have len: "length mem1 = length mem0" using ids by (metis length_map)
  have "other_index d mem0 j"
    if j: "j < length mem1" and a: "status (mem1 ! j) \<noteq> INACTIVE"
      and b: "status (mem1 ! j) \<noteq> IMPORTED" for j
  proof -
    have j0: "j < length mem0" using j len by simp
    have "status (mem1 ! j) = status (mem0 ! j)" using sts j j0 by (metis nth_map)
    then have "mem0 ! j \<noteq> d" using a b terminal by auto
    moreover have "mem0 ! j \<in> set db0" using j0 sub by auto
    ultimately have "doc_id (mem0 ! j) \<noteq> doc_id d"
      using distinct_ids_same [OF dist _ d] by blast
    then show ?thesis using j0 by (simp add: other_index_def)
  qed
  then show ?thesis by (auto simp: detect_inactive_def list_all_iff)
qed

text \<open>
  C3. For every state of the store (with unique document ids) and every fresh batch, a
  stored record whose status is \<open>imported\<close> or \<open>inactive\<close> and whose URL is absent from
  the batch is not classified as inactive by \<open>processScrapedEvents\<close>, no status change
  is logged for it, and it is still stored, unchanged, after the pass (also when the pass
  throws); the ids of the store stay unique, so it is the only record with its id.
\<close>

theorem terminal_records_not_inactivated:
  assumes d: "d \<in> set (events_db w)"
    and dist: "distinct (map doc_id (events_db w))"
    and terminal: "status d = IMPORTED \<or> status d = INACTIVE"
    and absent: "originalEventUrl d \<notin> set (map originalEventUrl scrapedEvents)"
    and run: "processScrapedEvents now scrapedEvents source w = (r, w')"
  shows "d \<in> set (events_db w')
     \<and> distinct (map doc_id (events_db w'))
     \<and> (case r of
          Inl err \<Rightarrow> statusChangeLogs w' = statusChangeLogs w
        | Inr res \<Rightarrow>
            doc_id d \<notin> doc_id ` set (inactiveEvents res)
            \<and> list_all (\<lambda>c. eventId c \<noteq> doc_id d) (statusChanges res)
            \<and> statusChangeLogs w' = statusChangeLogs w @ statusChanges res)"
proof -
  let ?mem0 = "filter (\<lambda>e. sourceWebsite e = source) (events_db w)"
  let ?st0 = "\<lparr>mem = ?mem0, db = events_db w, logs = statusChangeLogs w,
                 r_newEvents = [], r_updatedEvents = [], r_inactiveEvents = [],
                 r_statusChanges = []\<rparr>"
  have sub: "set ?mem0 \<subseteq> set (events_db w)" by auto
  have di: "distinct (map doc_id (events_db w'))"
    using run dist by (rule processScrapedEvents_distinct)
  have u0: "untouched d ?mem0 ?st0" using d by (simp add: untouched_def)
  have l0: "list_all (\<lambda>(i, u). other_index d ?mem0 i) (r_updatedEvents ?st0)" by simp
  note good = lookup_other_index [OF d dist absent sub]
  obtain e st where det:
    "detect_changes now (existingEventMap ?mem0) scrapedEvents ?st0 = (e, st)"
    by (cases "detect_changes now (existingEventMap ?mem0) scrapedEvents ?st0")
  have inv: "untouched d ?mem0 st
     \<and> list_all (\<lambda>(i, u). other_index d ?mem0 i) (r_updatedEvents st)
     \<and> map status (mem st) = map status (mem ?st0)
     \<and> r_statusChanges st = r_statusChanges ?st0 \<and> logs st = logs ?st0"
    by (rule detect_changes_untouched [OF good u0 l0 det])
  show ?thesis
  proof (cases e)
    case (Some err)
    then have "r = Inl err" "w' = w\<lparr>events_db := db st, statusChangeLogs := logs st\<rparr>"
      using run det by (simp_all add: processScrapedEvents_def Let_def)
    then show ?thesis using inv di by (simp add: untouched_def)
  next
    case None
    let ?st1 = "st\<lparr>r_inactiveEvents := detect_inactive scrapedEvents (mem st)\<rparr>"
    let ?st2 = "applyStatusChanges now ?st1"
    have r: "r = Inr (result_of ?st2)"
      and w': "w' = w\<lparr>events_db := db ?st2, statusChangeLogs := logs ?st2\<rparr>"
      using run det None by (simp_all add: processScrapedEvents_def Let_def)
    have u1: "untouched d ?mem0 ?st1" using inv by (simp add: untouched_def)
    have l1: "list_all (\<lambda>(i, u). other_index d ?mem0 i) (r_updatedEvents ?st1)"
      using inv by simp
    have ids: "map doc_id (mem st) = map doc_id ?mem0" using inv by (simp add: untouched_def)
    have sts: "map status (mem st) = map status ?mem0" using inv by simp
    have j1: "list_all (other_index d ?mem0) (r_inactiveEvents ?st1)"
      using inactive_other_index [OF d dist terminal sub ids sts] by simp
    have u2: "untouched d ?mem0 ?st2" by (rule applyStatusChanges_untouched [OF u1 l1 j1])
    have lists: "r_inactiveEvents ?st2 = r_inactiveEvents ?st1"
      using applyStatusChanges_lists [of now ?st1] by simp
    have "logs ?st1 = statusChangeLogs w @ r_statusChanges ?st1" using inv by simp
    then have lg: "logs ?st2 = statusChangeLogs w @ r_statusChanges ?st2"
      by (rule applyStatusChanges_logs)
    have "doc_id (mem ?st2 ! j) \<noteq> doc_id d" if "j \<in> set (r_inactiveEvents ?st2)" for j
    proof -
      have "other_index d ?mem0 j" using that j1 lists by (simp add: list_all_iff)
      then show ?thesis using untouched_nth(2) [OF u2] by blast
    qed
    then have "\<forall>x \<in> set (inactiveEvents (result_of ?st2)). doc_id x \<noteq> doc_id d"
      by (simp add: result_of_def)
    then have a: "doc_id d \<notin> doc_id ` set (inactiveEvents (result_of ?st2))"
      by (metis imageE)
    have b: "list_all (\<lambda>c. eventId c \<noteq> doc_id d) (statusChanges (result_of ?st2))"
      using u2 by (simp add: untouched_def result_of_def)
    have c: "d \<in> set (events_db w')" using u2 w' by (simp add: untouched_def)
    have e: "statusChangeLogs w' = statusChangeLogs w @ statusChanges (result_of ?st2)"
      using lg w' by (simp add: result_of_def)
    show ?thesis using a b c e r di by simp
  qed
qed

section \<open>scrapeSource and scrapeAll\<close>

lemma scrapeSource_returns: "scrapeSource e source = Inr (basic_result e source)"
  by (simp add: basic_result_def scrapeSource_def extractEvents_def
      split: sum.splits prod.splits)

lemma basic_result_url [simp]: "sourceUrl (basic_result e source) = url source"
  by (simp add: basic_result_def scrapeSource_def network_error_result_def
      split: sum.splits prod.splits)

lemma basic_result_failed:
  assumes "fetch_or_extraction_fails e source"
  shows "events (basic_result e source) = []"
    and "length (scrapingErrors (basic_result e source)) = 1"
  using assms
  by (auto simp: basic_result_def fetch_or_extraction_fails_def scrapeSource_def
      extractEvents_def network_error_result_def split: sum.splits prod.splits)

lemma scrapeAll_loop_map:
  "scrapeAll_loop e sources results = results @ map (basic_result e) sources"
  by (induction sources arbitrary: results) (simp_all add: scrapeSource_returns)

lemma scrapeAll_map: "scrapeAll e sources = Inr (map (basic_result e) sources)"
  by (simp add: scrapeAll_def scrapeAll_loop_map)

section \<open>Frame of the status manager inside the runner\<close>

lemma agree_except_refl [simp]: "agree_except k w w"
  by (simp add: agree_except_def)

lemma agree_except_trans:
  "agree_except k w1 w2 \<Longrightarrow> agree_except k w2 w3 \<Longrightarrow> agree_except k w1 w3"
  by (simp add: agree_except_def)

lemma processScrapedEvents_frame:
  assumes "processScrapedEvents now sc src w = (r, w')"
  shows "w' = w\<lparr>events_db := events_db w', statusChangeLogs := statusChangeLogs w'\<rparr>"
  using assms
  by (auto simp: processScrapedEvents_def Let_def split: prod.splits option.splits)

lemma processScrapedEvents_agree:
  assumes a: "agree_except k w1 w2"
  shows "fst (processScrapedEvents now sc src w1) = fst (processScrapedEvents now sc src w2)
     \<and> agree_except k (snd (processScrapedEvents now sc src w1))
          (snd (processScrapedEvents now sc src w2))"
proof -
  have e: "events_db w1 = events_db w2" "statusChangeLogs w1 = statusChangeLogs w2"
    using a by (simp_all add: agree_except_def)
  show ?thesis using a
    by (simp add: processScrapedEvents_def Let_def e agree_except_def
        split: prod.splits option.splits)
qed

lemma sswsm_result:
  "\<exists>cd w'. scrapeSourceWithStatusManagement e s w
            = (Inr (enhanced (basic_result e s) cd), w')"
  by (auto simp: scrapeSourceWithStatusManagement_def scrapeSource_returns
      split: prod.splits sum.splits)

lemma sswsm_failed:
  "fetch_or_extraction_fails e s \<Longrightarrow>
   scrapeSourceWithStatusManagement e s w = (Inr (enhanced (basic_result e s) None), w)"
  by (simp add: scrapeSourceWithStatusManagement_def scrapeSource_returns basic_result_failed)

lemma sswsm_agree:
  assumes a: "agree_except k w1 w2"
  shows "fst (scrapeSourceWithStatusManagement e s w1)
           = fst (scrapeSourceWithStatusManagement e s w2)
     \<and> agree_except k (snd (scrapeSourceWithStatusManagement e s w1))
          (snd (scrapeSourceWithStatusManagement e s w2))"
proof (cases "events (basic_result e s) = []")
  case True
  then show ?thesis using a
    by (simp add: scrapeSourceWithStatusManagement_def scrapeSource_returns)
next
  case False
  let ?p1 = "processScrapedEvents (clock e) (events (basic_result e s)) (name s) w1"
  let ?p2 = "processScrapedEvents (clock e) (events (basic_result e s)) (name s) w2"
  have p: "fst ?p1 = fst ?p2 \<and> agree_except k (snd ?p1) (snd ?p2)"
    using a by (rule processScrapedEvents_agree)
  obtain r1 v1 where e1: "?p1 = (r1, v1)" by (cases ?p1)
  obtain r2 v2 where e2: "?p2 = (r2, v2)" by (cases ?p2)
  have "r1 = r2" "agree_except k v1 v2" using p e1 e2 by simp_all
  then show ?thesis using False e1 e2
    by (cases r2) (simp_all add: scrapeSourceWithStatusManagement_def scrapeSource_returns)
qed

lemma withRetry_sswsm:
  "withRetry (scrapeSourceWithStatusManagement e s) n now w
     = scrapeSourceWithStatusManagement e s w"
proof (cases n)
  case 0
  then show ?thesis by simp
next
  case (Suc m)
  obtain cd w' where "scrapeSourceWithStatusManagement e s w
            = (Inr (enhanced (basic_result e s) cd), w')"
    using sswsm_result by blast
  then show ?thesis using Suc by simp
qed

lemma sswsm_breakers:
  "circuitBreakers (snd (scrapeSourceWithStatusManagement e s w)) = circuitBreakers w"
proof (cases "events (basic_result e s) = []")
  case True
  then show ?thesis by (simp add: scrapeSourceWithStatusManagement_def scrapeSource_returns)
next
  case False
  let ?p = "processScrapedEvents (clock e) (events (basic_result e s)) (name s) w"
  obtain r v where ep: "?p = (r, v)" by (cases ?p)
  have "v = w\<lparr>events_db := events_db v, statusChangeLogs := statusChangeLogs v\<rparr>"
    using ep by (rule processScrapedEvents_frame)
  then have "circuitBreakers v = circuitBreakers w"
    by (metis world.select_convs(4) world.surjective world.update_convs(1)
        world.update_convs(2))
  then show ?thesis using False ep
    by (cases r) (simp_all add: scrapeSourceWithStatusManagement_def scrapeSource_returns)
qed

section \<open>scrapeSourceResilient\<close>

lemma withRetry_sswsm_fun:
  "withRetry (scrapeSourceWithStatusManagement e s) n now
     = scrapeSourceWithStatusManagement e s"
  by (rule ext) (rule withRetry_sswsm)

lemma execute_sswsm:
  "execute cb (scrapeSourceWithStatusManagement e s) t1 t2 w
     = (if state cb = OPEN \<and> \<not> shouldAttemptReset t1 cb
        then (Inl (Error (''Circuit breaker '' @ cb_name cb @ '' is OPEN'')), cb, w)
        else (fst (scrapeSourceWithStatusManagement e s w),
              onSuccess (if state cb = OPEN then cb\<lparr>state := HALF_OPEN\<rparr> else cb),
              snd (scrapeSourceWithStatusManagement e s w)))"
proof -
  obtain cd w' where r: "scrapeSourceWithStatusManagement e s w
            = (Inr (enhanced (basic_result e s) cd), w')"
    using sswsm_result by blast
  show ?thesis by (simp add: execute_def invoke_def r)
qed

lemma agree_except_put:
  "agree_except k w1 w2 \<Longrightarrow>
   agree_except k (w1\<lparr>circuitBreakers := (circuitBreakers w1)(n \<mapsto> c)\<rparr>)
     (w2\<lparr>circuitBreakers := (circuitBreakers w2)(n \<mapsto> c)\<rparr>)"
  by (simp add: agree_except_def)

lemma agree_except_put_key:
  "agree_except k w1 w2 \<Longrightarrow>
   agree_except k w1 (w2\<lparr>circuitBreakers := (circuitBreakers w2)(k \<mapsto> c)\<rparr>)"
  by (simp add: agree_except_def)

lemma getCircuitBreaker_agree:
  assumes "agree_except k w1 w2" "n \<noteq> k"
  shows "fst (getCircuitBreaker n cfg w1) = fst (getCircuitBreaker n cfg w2)
     \<and> agree_except k (snd (getCircuitBreaker n cfg w1)) (snd (getCircuitBreaker n cfg w2))"
proof -
  have "circuitBreakers w1 n = circuitBreakers w2 n"
    using assms by (simp add: agree_except_def)
  then show ?thesis using assms(1)
    by (cases "circuitBreakers w2 n") (simp_all add: getCircuitBreaker_def agree_except_put)
qed

lemma getCircuitBreaker_key: "agree_except k w (snd (getCircuitBreaker k cfg w))"
  by (cases "circuitBreakers w k") (simp_all add: getCircuitBreaker_def agree_except_put_key)

lemma breaker_key_eq [simp]: "breaker_key a = breaker_key b \<longleftrightarrow> name a = name b"
  by (simp add: breaker_key_def)

lemma scrapeSourceResilient_unfold:
  "scrapeSourceResilient e s w =
     (let cb = fst (getCircuitBreaker (breaker_key s) scraper_config w);
          v = snd (getCircuitBreaker (breaker_key s) scraper_config w)
      in if state cb = OPEN \<and> \<not> shouldAttemptReset (clock e) cb
         then (Inl (Error (''Circuit breaker '' @ cb_name cb @ '' is OPEN'')),
               v\<lparr>circuitBreakers := (circuitBreakers v)(breaker_key s \<mapsto> cb)\<rparr>)
         else (fst (scrapeSourceWithStatusManagement e s v),
               (snd (scrapeSourceWithStatusManagement e s v))
                 \<lparr>circuitBreakers :=
                    (circuitBreakers (snd (scrapeSourceWithStatusManagement e s v)))
                      (breaker_key s \<mapsto>
                         onSuccess (if state cb = OPEN then cb\<lparr>state := HALF_OPEN\<rparr>
                                    else cb))\<rparr>))"
  unfolding scrapeSourceResilient_def withRetry_sswsm_fun execute_sswsm breaker_key_def
  by (simp add: Let_def split: prod.splits)

lemma scrapeSourceResilient_agree:
  assumes a: "agree_except k w1 w2" and n: "breaker_key s \<noteq> k"
  shows "fst (scrapeSourceResilient e s w1) = fst (scrapeSourceResilient e s w2)
     \<and> agree_except k (snd (scrapeSourceResilient e s w1))
          (snd (scrapeSourceResilient e s w2))"
proof -
  let ?g1 = "getCircuitBreaker (breaker_key s) scraper_config w1"
  let ?g2 = "getCircuitBreaker (breaker_key s) scraper_config w2"
  have c: "fst ?g1 = fst ?g2" and v: "agree_except k (snd ?g1) (snd ?g2)"
    using getCircuitBreaker_agree [OF a n, of scraper_config] by simp_all
  have o: "fst (scrapeSourceWithStatusManagement e s (snd ?g1))
             = fst (scrapeSourceWithStatusManagement e s (snd ?g2))"
    "agree_except k (snd (scrapeSourceWithStatusManagement e s (snd ?g1)))
       (snd (scrapeSourceWithStatusManagement e s (snd ?g2)))"
    using sswsm_agree [OF v, of e s] by simp_all
  show ?thesis
    using c v o by (simp add: scrapeSourceResilient_unfold Let_def agree_except_put)
qed

lemma scrapeSourceResilient_failed:
  assumes f: "fetch_or_extraction_fails e s"
  shows "agree_except (breaker_key s) w (snd (scrapeSourceResilient e s w))"
proof -
  have v: "agree_except (breaker_key s) w
             (snd (getCircuitBreaker (breaker_key s) scraper_config w))"
    by (rule getCircuitBreaker_key)
  show ?thesis using v
    by (simp add: scrapeSourceResilient_unfold Let_def sswsm_failed [OF f]
        agree_except_put_key)
qed

lemma resilient_step_result:
  "sourceUrl (fst (resilient_step e s w)) = url s"
  "fetch_or_extraction_fails e s \<Longrightarrow>
     events (fst (resilient_step e s w)) = []
     \<and> scrapingErrors (fst (resilient_step e s w)) \<noteq> []"
proof -
  let ?v = "snd (getCircuitBreaker (breaker_key s) scraper_config w)"
  obtain cd v' where r: "scrapeSourceWithStatusManagement e s ?v
            = (Inr (enhanced (basic_result e s) cd), v')"
    using sswsm_result by blast
  show "sourceUrl (fst (resilient_step e s w)) = url s"
    by (simp add: resilient_step_def scrapeSourceResilient_unfold r enhanced_def
        failed_result_def Let_def)
  assume f: "fetch_or_extraction_fails e s"
  have len: "length (scrapingErrors (basic_result e s)) = 1"
    and ev: "events (basic_result e s) = []"
    using basic_result_failed [OF f] by simp_all
  have ne: "scrapingErrors (basic_result e s) \<noteq> []" using len by auto
  show "events (fst (resilient_step e s w)) = []
     \<and> scrapingErrors (fst (resilient_step e s w)) \<noteq> []"
    using ev ne
    by (simp add: resilient_step_def scrapeSourceResilient_unfold r enhanced_def
        failed_result_def Let_def)
qed

section \<open>scrapeAllResilient\<close>

lemma loop_step:
  "scrapeAllResilient_loop e (s # rest) acc w
     = scrapeAllResilient_loop e rest (acc @ [fst (resilient_step e s w)])
         (snd (resilient_step e s w))"
  by (simp add: resilient_step_def split: prod.splits sum.splits)

lemma loop_acc:
  "scrapeAllResilient_loop e xs acc w
     = (acc @ fst (scrapeAllResilient_loop e xs [] w),
        snd (scrapeAllResilient_loop e xs [] w))"
proof (induction xs arbitrary: acc w)
  case Nil
  then show ?case by simp
next
  case (Cons s xs)
  let ?r = "fst (resilient_step e s w)" and ?w = "snd (resilient_step e s w)"
  have a: "scrapeAllResilient_loop e xs (acc @ [?r]) ?w
      = ((acc @ [?r]) @ fst (scrapeAllResilient_loop e xs [] ?w),
         snd (scrapeAllResilient_loop e xs [] ?w))"
    by (rule Cons.IH)
  have b: "scrapeAllResilient_loop e xs ([] @ [?r]) ?w
      = (([] @ [?r]) @ fst (scrapeAllResilient_loop e xs [] ?w),
         snd (scrapeAllResilient_loop e xs [] ?w))"
    by (rule Cons.IH)
  show ?case unfolding loop_step a using b by simp
qed

lemma loop_cons:
  "scrapeAllResilient_loop e (s # rest) [] w
     = (fst (resilient_step e s w)
          # fst (scrapeAllResilient_loop e rest [] (snd (resilient_step e s w))),
        snd (scrapeAllResilient_loop e rest [] (snd (resilient_step e s w))))"
  unfolding loop_step
  using loop_acc [of e rest "[] @ [fst (resilient_step e s w)]" "snd (resilient_step e s w)"]
  by simp

lemma loop_append:
  "scrapeAllResilient_loop e (xs @ ys) [] w
     = (fst (scrapeAllResilient_loop e xs [] w)
          @ fst (scrapeAllResilient_loop e ys [] (snd (scrapeAllResilient_loop e xs [] w))),
        snd (scrapeAllResilient_loop e ys [] (snd (scrapeAllResilient_loop e xs [] w))))"
proof (induction xs arbitrary: w)
  case Nil
  then show ?case by simp
next
  case (Cons s xs)
  show ?case
    unfolding append_Cons loop_cons Cons.IH by simp
qed

lemma loop_results:
  "list_all2 (\<lambda>s r. sourceUrl r = url s
                \<and> (if fetch_or_extraction_fails e s
                    then events r = [] \<and> scrapingErrors r \<noteq> [] else True))
     xs (fst (scrapeAllResilient_loop e xs [] w))"
proof (induction xs arbitrary: w)
  case Nil
  then show ?case by simp
next
  case (Cons s xs)
  show ?case unfolding loop_cons using Cons.IH resilient_step_result [of e s w] by simp
qed

section \<open>A failing source does not change the results of the others\<close>

lemma onSuccess_not_open:
  "state (onSuccess (if state cb = OPEN then cb\<lparr>state := HALF_OPEN\<rparr> else cb)) \<noteq> OPEN"
  by (cases "state cb") (simp_all add: onSuccess_def Let_def)

lemma agree_except_same:
  assumes "agree_except k w1 w2" "circuitBreakers w1 k = circuitBreakers w2 k"
  shows "w1 = w2"
proof -
  have "circuitBreakers w1 = circuitBreakers w2"
  proof (rule ext)
    fix n show "circuitBreakers w1 n = circuitBreakers w2 n"
      using assms by (cases "n = k") (simp_all add: agree_except_def)
  qed
  then show ?thesis using assms(1) by (simp add: agree_except_def)
qed

lemma agree_except_put_keys:
  "agree_except k w1 w2 \<Longrightarrow>
   agree_except k (w1\<lparr>circuitBreakers := (circuitBreakers w1)(k \<mapsto> c1)\<rparr>)
     (w2\<lparr>circuitBreakers := (circuitBreakers w2)(k \<mapsto> c2)\<rparr>)"
  by (simp add: agree_except_def)

lemma getCircuitBreaker_fst:
  "fails_fast t (Some (fst (getCircuitBreaker k cfg w))) = fails_fast t (circuitBreakers w k)"
  by (cases "circuitBreakers w k")
     (simp_all add: getCircuitBreaker_def fails_fast_def new_CircuitBreaker_def)

lemma getCircuitBreaker_snd:
  "agree_except k w1 w2 \<Longrightarrow>
   agree_except k (snd (getCircuitBreaker k cfg w1)) (snd (getCircuitBreaker k cfg w2))"
  by (cases "circuitBreakers w1 k"; cases "circuitBreakers w2 k")
     (simp_all add: getCircuitBreaker_def agree_except_def)

lemma scrapeSourceResilient_other:
  assumes "breaker_key s \<noteq> k"
  shows "circuitBreakers (snd (scrapeSourceResilient e s w)) k = circuitBreakers w k"
proof -
  have g: "circuitBreakers (snd (getCircuitBreaker (breaker_key s) scraper_config w)) k
             = circuitBreakers w k"
    using assms by (cases "circuitBreakers w (breaker_key s)") (simp_all add: getCircuitBreaker_def)
  show ?thesis using assms g
    by (simp add: scrapeSourceResilient_unfold Let_def sswsm_breakers)
qed

lemma scrapeSourceResilient_alike:
  assumes a: "alike (clock e) k w1 w2"
  shows "fst (scrapeSourceResilient e s w1) = fst (scrapeSourceResilient e s w2)
     \<and> alike (clock e) k (snd (scrapeSourceResilient e s w1))
          (snd (scrapeSourceResilient e s w2))"
proof (cases "circuitBreakers w1 k = circuitBreakers w2 k")
  case True
  have "w1 = w2" using a True by (simp add: alike_def agree_except_same)
  then show ?thesis by (simp add: alike_def)
next
  case diff: False
  have ag: "agree_except k w1 w2"
    and nf: "\<not> fails_fast (clock e) (circuitBreakers w1 k)"
            "\<not> fails_fast (clock e) (circuitBreakers w2 k)"
    using a diff by (simp_all add: alike_def)
  show ?thesis
  proof (cases "breaker_key s = k")
    case False
    have r: "fst (scrapeSourceResilient e s w1) = fst (scrapeSourceResilient e s w2)"
      "agree_except k (snd (scrapeSourceResilient e s w1)) (snd (scrapeSourceResilient e s w2))"
      using scrapeSourceResilient_agree [OF ag False, of e] by simp_all
    show ?thesis using r nf
      by (simp add: alike_def scrapeSourceResilient_other [OF False])
  next
    case True
    let ?g1 = "getCircuitBreaker k scraper_config w1"
    let ?g2 = "getCircuitBreaker k scraper_config w2"
    have n1: "\<not> (state (fst ?g1) = OPEN \<and> \<not> shouldAttemptReset (clock e) (fst ?g1))"
      using nf(1) getCircuitBreaker_fst [of "clock e" k scraper_config w1]
      by (simp add: fails_fast_def)
    have n2: "\<not> (state (fst ?g2) = OPEN \<and> \<not> shouldAttemptReset (clock e) (fst ?g2))"
      using nf(2) getCircuitBreaker_fst [of "clock e" k scraper_config w2]
      by (simp add: fails_fast_def)
    have v: "agree_except k (snd ?g1) (snd ?g2)"
      using getCircuitBreaker_snd [OF ag] by simp
    have o: "fst (scrapeSourceWithStatusManagement e s (snd ?g1))
             = fst (scrapeSourceWithStatusManagement e s (snd ?g2))"
      "agree_except k (snd (scrapeSourceWithStatusManagement e s (snd ?g1)))
         (snd (scrapeSourceWithStatusManagement e s (snd ?g2)))"
      using sswsm_agree [OF v, of e s] by simp_all
    have u1: "scrapeSourceResilient e s w1
        = (fst (scrapeSourceWithStatusManagement e s (snd ?g1)),
           (snd (scrapeSourceWithStatusManagement e s (snd ?g1)))
             \<lparr>circuitBreakers :=
                (circuitBreakers (snd (scrapeSourceWithStatusManagement e s (snd ?g1))))
                  (k \<mapsto> onSuccess (if state (fst ?g1) = OPEN
                                     then (fst ?g1)\<lparr>state := HALF_OPEN\<rparr> else fst ?g1))\<rparr>)"
      by (subst scrapeSourceResilient_unfold) (simp only: Let_def True if_not_P [OF n1])
    have u2: "scrapeSourceResilient e s w2
        = (fst (scrapeSourceWithStatusManagement e s (snd ?g2)),
           (snd (scrapeSourceWithStatusManagement e s (snd ?g2)))
             \<lparr>circuitBreakers :=
                (circuitBreakers (snd (scrapeSourceWithStatusManagement e s (snd ?g2))))
                  (k \<mapsto> onSuccess (if state (fst ?g2) = OPEN
                                     then (fst ?g2)\<lparr>state := HALF_OPEN\<rparr> else fst ?g2))\<rparr>)"
      by (subst scrapeSourceResilient_unfold) (simp only: Let_def True if_not_P [OF n2])
    show ?thesis
      unfolding u1 u2
      using o agree_except_put_keys [OF o(2)] onSuccess_not_open
      by (simp add: alike_def fails_fast_def)
  qed
qed

lemma resilient_step_alike:
  assumes a: "alike (clock e) k w1 w2"
  shows "fst (resilient_step e s w1) = fst (resilient_step e s w2)
     \<and> alike (clock e) k (snd (resilient_step e s w1)) (snd (resilient_step e s w2))"
proof -
  obtain r1 v1 where p1: "scrapeSourceResilient e s w1 = (r1, v1)"
    by (cases "scrapeSourceResilient e s w1")
  obtain r2 v2 where p2: "scrapeSourceResilient e s w2 = (r2, v2)"
    by (cases "scrapeSourceResilient e s w2")
  have "r1 = r2" "alike (clock e) k v1 v2"
    using scrapeSourceResilient_alike [OF a, of s] p1 p2 by simp_all
  then show ?thesis by (simp add: resilient_step_def p1 p2 split: sum.splits)
qed

lemma loop_alike:
  "alike (clock e) k w1 w2 \<Longrightarrow>
   fst (scrapeAllResilient_loop e xs [] w1) = fst (scrapeAllResilient_loop e xs [] w2)
   \<and> alike (clock e) k (snd (scrapeAllResilient_loop e xs [] w1))
        (snd (scrapeAllResilient_loop e xs [] w2))"
proof (induction xs arbitrary: w1 w2)
  case Nil
  then show ?case by simp
next
  case (Cons s xs)
  have st: "fst (resilient_step e s w1) = fst (resilient_step e s w2)"
    and al: "alike (clock e) k (snd (resilient_step e s w1)) (snd (resilient_step e s w2))"
    using resilient_step_alike [OF Cons.prems, of s] by simp_all
  show ?case unfolding loop_cons using Cons.IH [OF al] st by simp
qed

lemma scrapeSourceResilient_failed_alike:
  assumes f: "fetch_or_extraction_fails e s"
  shows "alike (clock e) (breaker_key s) w (snd (scrapeSourceResilient e s w))"
proof -
  let ?k = "breaker_key s"
  let ?g = "getCircuitBreaker ?k scraper_config w"
  have ag: "agree_except ?k w (snd (scrapeSourceResilient e s w))"
    using f by (rule scrapeSourceResilient_failed)
  show ?thesis
  proof (cases "fails_fast (clock e) (circuitBreakers w ?k)")
    case True
    then obtain cb where c: "circuitBreakers w ?k = Some cb"
      and o: "state cb = OPEN" "\<not> shouldAttemptReset (clock e) cb"
      by (auto simp: fails_fast_def split: option.splits)
    have g: "?g = (cb, w)" using c by (simp add: getCircuitBreaker_def)
    have "circuitBreakers (snd (scrapeSourceResilient e s w)) ?k = Some cb"
      using o by (simp add: scrapeSourceResilient_unfold g)
    then show ?thesis using ag c by (simp add: alike_def)
  next
    case False
    have n: "\<not> (state (fst ?g) = OPEN \<and> \<not> shouldAttemptReset (clock e) (fst ?g))"
      using False getCircuitBreaker_fst [of "clock e" ?k scraper_config w]
      by (simp add: fails_fast_def)
    have "\<not> fails_fast (clock e) (circuitBreakers (snd (scrapeSourceResilient e s w)) ?k)"
      using n onSuccess_not_open
      by (simp add: scrapeSourceResilient_unfold Let_def fails_fast_def)
    then show ?thesis using ag False by (simp add: alike_def)
  qed
qed

lemma resilient_step_failed_alike:
  assumes "fetch_or_extraction_fails e s"
  shows "alike (clock e) (breaker_key s) w (snd (resilient_step e s w))"
  using scrapeSourceResilient_failed_alike [OF assms, of w]
  by (auto simp: resilient_step_def split: prod.splits sum.splits)

lemma removing_failed_source:
  assumes f: "fetch_or_extraction_fails e s"
  shows "\<exists>rx r ry wa wb.
     scrapeAllResilient e (xs @ s # ys) w = (Inr (rx @ r # ry), wa)
     \<and> scrapeAllResilient e (xs @ ys) w = (Inr (rx @ ry), wb)
     \<and> length rx = length xs
     \<and> events_db wa = events_db wb \<and> statusChangeLogs wa = statusChangeLogs wb"
proof -
  let ?lx = "scrapeAllResilient_loop e xs [] w"
  let ?wx = "snd ?lx"
  let ?ws = "snd (resilient_step e s ?wx)"
  have ag: "alike (clock e) (breaker_key s) ?wx ?ws"
    using f by (rule resilient_step_failed_alike)
  have eq: "fst (scrapeAllResilient_loop e ys [] ?wx) = fst (scrapeAllResilient_loop e ys [] ?ws)"
    and fin: "alike (clock e) (breaker_key s) (snd (scrapeAllResilient_loop e ys [] ?wx))
        (snd (scrapeAllResilient_loop e ys [] ?ws))"
    using loop_alike [OF ag, of ys] by simp_all
  have len: "length (fst ?lx) = length xs"
    using loop_results [of e xs w] by (simp add: list_all2_lengthD)
  have a: "scrapeAllResilient e (xs @ s # ys) w
      = (Inr (fst ?lx @ fst (resilient_step e s ?wx)
                # fst (scrapeAllResilient_loop e ys [] ?ws)),
         snd (scrapeAllResilient_loop e ys [] ?ws))"
    unfolding scrapeAllResilient_def loop_append loop_cons by simp
  have b: "scrapeAllResilient e (xs @ ys) w
      = (Inr (fst ?lx @ fst (scrapeAllResilient_loop e ys [] ?ws)),
         snd (scrapeAllResilient_loop e ys [] ?wx))"
    unfolding scrapeAllResilient_def loop_append eq by simp
  show ?thesis using a b len fin by (auto simp: alike_def agree_except_def)
qed

section \<open>The examples, evaluated\<close>

lemma trim_examples [simp]:
  "trim ''Jazz Night'' = ''Jazz Night''" "trim ''Town Hall'' = ''Town Hall''"
  "trim ''Sydney'' = ''Sydney''" "trim ''Live jazz'' = ''Live jazz''"
  "trim ''https://example.com'' = ''https://example.com''"
  "trim ''https://example.com/e/a'' = ''https://example.com/e/a''"
  "trim ''Music'' = ''Music''"
  by (simp_all add: trim_def is_space_def)

lemma lower_examples [simp]: "toLowerCase ''Music'' = ''music''"
  by (simp add: toLowerCase_def lower_char_def)

lemma url_examples [simp]:
  "urlRegex_test ''https://example.com''" "urlRegex_test ''https://example.com/e/a''"
  by (simp_all add: urlRegex_test_def)

lemma new_jazz:
  "event_save 1000 True (new_Event (fresh_id []) jazz_scraped NEW) []
     = (None, jazz_doc NEW, [jazz_doc NEW])"
  by (simp add: event_save_def new_Event_def jazz_scraped_def fresh_id_def validate_event_def
      event_pre_save_def dedupe_def duplicate_key_def jazz_doc_def Let_def)

lemma first_pass_value:
  "first_pass
     = (Inr \<lparr>newEvents = [jazz_scraped], updatedEvents = [], inactiveEvents = [],
             statusChanges = [created_entry]\<rparr>,
        empty_world\<lparr>events_db := [jazz_doc NEW], statusChangeLogs := [created_entry]\<rparr>)"
proof -
  have sw: "sourceWebsite jazz_scraped = ''https://example.com''"
    by (simp add: jazz_scraped_def)
  have id: "doc_id (jazz_doc NEW) = 1" by (simp add: jazz_doc_def)
  show ?thesis
    by (simp add: first_pass_def processScrapedEvents_def empty_world_def existingEventMap_def
        detect_inactive_def applyStatusChanges_def new_jazz push_change_def result_of_def
        created_entry_def sw id)
qed

lemma jazz_changed: "detectEventChanges (jazz_doc st) jazz_scraped"
  by (simp add: detectEventChanges_def jazz_doc_def jazz_scraped_def)

lemma update_jazz:
  "event_save 2000 False (assign_event (jazz_doc NEW) jazz_scraped UPDATED 2000) [jazz_doc NEW]
     = (None, (jazz_doc UPDATED)\<lparr>lastScrapedAt := 2000, updatedAt := 2000\<rparr>,
        [(jazz_doc UPDATED)\<lparr>lastScrapedAt := 2000, updatedAt := 2000\<rparr>])"
  by (simp add: event_save_def assign_event_def jazz_scraped_def validate_event_def
      event_pre_save_def dedupe_def duplicate_key_def jazz_doc_def Let_def)

lemma second_pass_value:
  "second_pass
     = (Inr \<lparr>newEvents = [],
             updatedEvents = [((jazz_doc UPDATED)\<lparr>lastScrapedAt := 2000, updatedAt := 2000\<rparr>,
                               jazz_scraped)],
             inactiveEvents = [],
             statusChanges =
               [\<lparr>eventId = 1, previousStatus = NEW, newStatus = UPDATED,
                 change_reason = ''Event data changed during scraping'', timestamp = 2000,
                 metadata = [(''sourceWebsite'', ''https://example.com'')]\<rparr>]\<rparr>,
        empty_world\<lparr>events_db := [(jazz_doc UPDATED)\<lparr>lastScrapedAt := 2000,
                                                         updatedAt := 2000\<rparr>],
                      statusChangeLogs :=
                        [created_entry,
                         \<lparr>eventId = 1, previousStatus = NEW, newStatus = UPDATED,
                          change_reason = ''Event data changed during scraping'',
                          timestamp = 2000,
                          metadata = [(''sourceWebsite'', ''https://example.com'')]\<rparr>]\<rparr>)"
proof -
  have sw: "sourceWebsite jazz_scraped = ''https://example.com''"
    and u: "originalEventUrl jazz_scraped = ''https://example.com/e/a''"
    by (simp_all add: jazz_scraped_def)
  have d: "sourceWebsite (jazz_doc NEW) = ''https://example.com''"
    "originalEventUrl (jazz_doc NEW) = ''https://example.com/e/a''"
    "status (jazz_doc NEW) = NEW"
    "doc_id ((jazz_doc UPDATED)\<lparr>lastScrapedAt := 2000, updatedAt := 2000\<rparr>) = 1"
    by (simp_all add: jazz_doc_def)
  show ?thesis
    by (simp add: second_pass_def first_pass_value processScrapedEvents_def
        example_source_def existingEventMap_def jazz_changed update_jazz
        detect_inactive_def applyStatusChanges_def push_change_def result_of_def sw u d
        empty_world_def)
qed

section \<open>The reconciler on the example stores\<close>

lemma update_imported_jazz:
  "event_save 2000 False (assign_event (jazz_doc IMPORTED) jazz_rescheduled UPDATED 2000)
       [jazz_doc IMPORTED]
     = (None,
        (jazz_doc UPDATED)\<lparr>dateTime := 1800086400000, lastScrapedAt := 2000, updatedAt := 2000\<rparr>,
        [(jazz_doc UPDATED)\<lparr>dateTime := 1800086400000, lastScrapedAt := 2000,
                             updatedAt := 2000\<rparr>])"
  by (simp add: event_save_def assign_event_def jazz_rescheduled_def jazz_scraped_def
      validate_event_def event_pre_save_def dedupe_def duplicate_key_def jazz_doc_def Let_def
      toLowerCase_def lower_char_def trim_def is_space_def)

lemma rescheduled_changed: "detectEventChanges (jazz_doc st) jazz_rescheduled"
  by (simp add: detectEventChanges_def jazz_doc_def jazz_rescheduled_def jazz_scraped_def)

lemma imported_pass_value:
  "processScrapedEvents 2000 [jazz_rescheduled] example_source imported_world
     = (Inr \<lparr>newEvents = [],
             updatedEvents =
               [((jazz_doc UPDATED)\<lparr>dateTime := 1800086400000, lastScrapedAt := 2000,
                                      updatedAt := 2000\<rparr>, jazz_rescheduled)],
             inactiveEvents = [],
             statusChanges =
               [\<lparr>eventId = 1, previousStatus = IMPORTED, newStatus = UPDATED,
                 change_reason = ''Event data changed during scraping'', timestamp = 2000,
                 metadata = [(''sourceWebsite'', ''https://example.com'')]\<rparr>]\<rparr>,
        imported_world
          \<lparr>events_db := [(jazz_doc UPDATED)\<lparr>dateTime := 1800086400000, lastScrapedAt := 2000,
                                             updatedAt := 2000\<rparr>],
           statusChangeLogs :=
             [\<lparr>eventId = 1, previousStatus = IMPORTED, newStatus = UPDATED,
               change_reason = ''Event data changed during scraping'', timestamp = 2000,
               metadata = [(''sourceWebsite'', ''https://example.com'')]\<rparr>]\<rparr>)"
proof -
  have sw: "sourceWebsite jazz_rescheduled = ''https://example.com''"
    and u: "originalEventUrl jazz_rescheduled = ''https://example.com/e/a''"
    by (simp_all add: jazz_rescheduled_def jazz_scraped_def)
  have d: "sourceWebsite (jazz_doc IMPORTED) = ''https://example.com''"
    "originalEventUrl (jazz_doc IMPORTED) = ''https://example.com/e/a''"
    "status (jazz_doc IMPORTED) = IMPORTED"
    "doc_id ((jazz_doc UPDATED)\<lparr>dateTime := 1800086400000, lastScrapedAt := 2000,
                                 updatedAt := 2000\<rparr>) = 1"
    by (simp_all add: jazz_doc_def)
  show ?thesis
    by (simp add: imported_world_def processScrapedEvents_def
        example_source_def existingEventMap_def rescheduled_changed update_imported_jazz
        detect_inactive_def applyStatusChanges_def push_change_def result_of_def sw u d
        empty_world_def)
qed

lemma import_imported_value:
  "importEvent 3000 1 7 None imported_world
     = (\<lparr>success = False,
         error = Some ''Invalid transition from imported to imported. Allowed transitions: ''\<rparr>,
        imported_world)"
  by (simp add: importEvent_def imported_world_def empty_world_def jazz_doc_def
      validateStatusTransition_def)

text \<open>
  Claim C1 (every transition the reconciler applies is validated first; a record with
  status \<open>imported\<close> is never overwritten), evaluated on the store \<open>imported_world\<close>:
  the table forbids \<open>imported \<rightarrow> updated\<close>, and \<open>importEvent\<close> consults the table and
  rejects the imported record, naming the pair; but \<open>processScrapedEvents\<close> with the
  rescheduled event returns no error, logs the change \<open>(imported, updated)\<close> and leaves the
  record with status \<open>updated\<close>: \<open>applyStatusChanges\<close> never calls
  \<open>validateStatusTransition\<close>.
\<close>

theorem imported_record_overwritten_by_scrape:
  "map status (events_db imported_world) = [IMPORTED]
   \<and> \<not> valid (validateStatusTransition IMPORTED UPDATED)
   \<and> (\<exists>res w'. processScrapedEvents 2000 [jazz_rescheduled] example_source imported_world
                  = (Inr res, w')
        \<and> map (\<lambda>c. (eventId c, previousStatus c, newStatus c)) (statusChanges res)
            = [(1, IMPORTED, UPDATED)]
        \<and> map (\<lambda>x. (doc_id x, status x)) (events_db w') = [(1, UPDATED)])
   \<and> importEvent 3000 1 7 None imported_world
       = (\<lparr>success = False,
           error = Some ''Invalid transition from imported to imported. Allowed transitions: ''\<rparr>,
          imported_world)"
proof -
  have a: "map status (events_db imported_world) = [IMPORTED]"
    by (simp add: imported_world_def empty_world_def jazz_doc_def)
  have b: "\<not> valid (validateStatusTransition IMPORTED UPDATED)"
    by (simp add: validateStatusTransition_def)
  have c: "\<exists>res w'. processScrapedEvents 2000 [jazz_rescheduled] example_source imported_world
                  = (Inr res, w')
        \<and> map (\<lambda>c. (eventId c, previousStatus c, newStatus c)) (statusChanges res)
            = [(1, IMPORTED, UPDATED)]
        \<and> map (\<lambda>x. (doc_id x, status x)) (events_db w') = [(1, UPDATED)]"
    unfolding imported_pass_value by (simp add: jazz_doc_def)
  show ?thesis using a b c import_imported_value by blast
qed

text \<open>
  Claim C6 (reconciling the same batch a second time changes nothing), evaluated on the
  batch \<open>[jazz_scraped]\<close> and the empty store: the first pass stores the tag
  \<open>Music\<close> in lower case (the pre-save hook), the second pass compares the stored tags
  with the scraped ones as they are, finds them different, classifies the record as
  updated and changes its status from \<open>new\<close> to \<open>updated\<close>.
\<close>

theorem second_pass_not_idempotent:
  "categoryTags jazz_scraped = [''Music'']
   \<and> map categoryTags (events_db (snd first_pass)) = [[''music'']]
   \<and> (\<exists>res w2. second_pass = (Inr res, w2)
        \<and> newEvents res = [] \<and> length (updatedEvents res) = 1 \<and> inactiveEvents res = []
        \<and> map (\<lambda>c. (eventId c, previousStatus c, newStatus c)) (statusChanges res)
            = [(1, NEW, UPDATED)]
        \<and> map status (events_db w2) = [UPDATED])"
proof -
  have a: "categoryTags jazz_scraped = [''Music'']" by (simp add: jazz_scraped_def)
  have b: "map categoryTags (events_db (snd first_pass)) = [[''music'']]"
    unfolding first_pass_value by (simp add: jazz_doc_def)
  have c: "\<exists>res w2. second_pass = (Inr res, w2)
        \<and> newEvents res = [] \<and> length (updatedEvents res) = 1 \<and> inactiveEvents res = []
        \<and> map (\<lambda>c. (eventId c, previousStatus c, newStatus c)) (statusChanges res)
            = [(1, NEW, UPDATED)]
        \<and> map status (events_db w2) = [UPDATED]"
    unfolding second_pass_value by (simp add: jazz_doc_def)
  show ?thesis using a b c by blast
qed

lemma other_pass_value:
  "\<exists>res. fst other_pass = Inr res \<and> newEvents res = [jazz_other] \<and> inactiveEvents res = []
     \<and> map (\<lambda>c. (eventId c, previousStatus c, newStatus c)) (statusChanges res) = [(2, NEW, NEW)]
     \<and> map (\<lambda>x. (doc_id x, status x)) (events_db (snd other_pass)) = [(1, IMPORTED), (2, NEW)]"
proof -
  have sv: "\<exists>d. event_save 2000 True (new_Event (fresh_id [jazz_doc IMPORTED]) jazz_other NEW)
              [jazz_doc IMPORTED] = (None, d, [jazz_doc IMPORTED, d]) \<and> doc_id d = 2
              \<and> status d = NEW"
    by (simp add: event_save_def new_Event_def jazz_other_def jazz_scraped_def fresh_id_def
        validate_event_def event_pre_save_def dedupe_def duplicate_key_def jazz_doc_def Let_def
        urlRegex_test_def trim_def is_space_def)
  then obtain d where sv': "event_save 2000 True (new_Event (fresh_id [jazz_doc IMPORTED]) jazz_other NEW)
              [jazz_doc IMPORTED] = (None, d, [jazz_doc IMPORTED, d])" and id: "doc_id d = 2"
    and st: "status d = NEW" by blast
  have sw: "sourceWebsite jazz_other = ''https://example.com''"
    and u: "originalEventUrl jazz_other = ''https://example.com/e/b''"
    by (simp_all add: jazz_other_def jazz_scraped_def)
  have dd: "sourceWebsite (jazz_doc IMPORTED) = ''https://example.com''"
    "originalEventUrl (jazz_doc IMPORTED) = ''https://example.com/e/a''"
    "status (jazz_doc IMPORTED) = IMPORTED" "doc_id (jazz_doc IMPORTED) = 1"
    by (simp_all add: jazz_doc_def)
  show ?thesis
    by (simp add: other_pass_def imported_world_def processScrapedEvents_def empty_world_def
        example_source_def existingEventMap_def detect_inactive_def applyStatusChanges_def
        sv' push_change_def result_of_def sw u dd id st)
qed

theorem creation_entries_record_self_pair_witness:
  "list_all (\<lambda>c. if change_reason c = ''Event created from scraping''
                        then previousStatus c = NEW \<and> newStatus c = NEW else True)
           [created_entry]
     \<and> list_all (\<lambda>x. doc_id x \<in> doc_id ` set (events_db (empty_world :: ScrapingLog world))
                      \<or> list_ex (\<lambda>c. eventId c = doc_id x
                                      \<and> change_reason c = ''Event created from scraping''
                                      \<and> previousStatus c = NEW \<and> newStatus c = NEW)
                           [created_entry]) [jazz_doc NEW]
     \<and> (NEW, NEW) \<notin> spec_transition_table
     \<and> \<not> valid (validateStatusTransition NEW NEW)"
  using creation_entries_record_self_pair [OF first_pass_value [unfolded first_pass_def]]
  by simp

theorem terminal_records_not_inactivated_witness:
  "jazz_doc IMPORTED \<in> set (events_db (snd other_pass))
     \<and> distinct (map doc_id (events_db (snd other_pass)))
     \<and> (case fst other_pass of
          Inl err \<Rightarrow> statusChangeLogs (snd other_pass) = statusChangeLogs imported_world
        | Inr res \<Rightarrow>
            doc_id (jazz_doc IMPORTED) \<notin> doc_id ` set (inactiveEvents res)
            \<and> list_all (\<lambda>c. eventId c \<noteq> doc_id (jazz_doc IMPORTED)) (statusChanges res)
            \<and> statusChangeLogs (snd other_pass)
                = statusChangeLogs imported_world @ statusChanges res)"
proof (rule terminal_records_not_inactivated [where now = 2000 and scrapedEvents = "[jazz_other]"
      and source = example_source])
  show "jazz_doc IMPORTED \<in> set (events_db imported_world)"
    by (simp add: imported_world_def)
  show "distinct (map doc_id (events_db imported_world))"
    by (simp add: imported_world_def)
  show "status (jazz_doc IMPORTED) = IMPORTED \<or> status (jazz_doc IMPORTED) = INACTIVE"
    by (simp add: jazz_doc_def)
  show "originalEventUrl (jazz_doc IMPORTED) \<notin> set (map originalEventUrl [jazz_other])"
    by (simp add: jazz_doc_def jazz_other_def)
  show "processScrapedEvents 2000 [jazz_other] example_source imported_world
          = (fst other_pass, snd other_pass)"
    by (simp add: other_pass_def)
qed

section \<open>A cycle over a failing and a working source\<close>

lemma addError_done:
  assumes "done_log l"
  shows "\<exists>l' ldb'. addError now m l ldb = (None, l', ldb') \<and> done_log l'"
proof -
  let ?l = "if length (log_scrapingErrors l) < 100
            then l\<lparr>log_scrapingErrors := log_scrapingErrors l @ [m]\<rparr> else l"
  have v: "validate_log ?l = []"
    using assms by (auto simp: done_log_def validate_log_def split: if_splits)
  have p: "log_pre_save now ?l = (None, ?l)"
    using assms by (auto simp: done_log_def log_pre_save_def Let_def split: option.splits)
  have d: "done_log ?l"
    using assms v by (auto simp: done_log_def split: option.splits)
  show ?thesis unfolding addError_def log_save_def v p using d by simp
qed

lemma add_errors_done:
  "done_log l \<Longrightarrow> \<exists>l' ldb'. add_errors now ms l ldb = (None, l', ldb')"
proof (induction ms arbitrary: l ldb)
  case Nil
  then show ?case by simp
next
  case (Cons m ms)
  obtain l1 ldb1 where a: "addError now m l ldb = (None, l1, ldb1)" and d: "done_log l1"
    using addError_done [OF Cons.prems] by blast
  show ?case using Cons.IH [OF d, of ldb1] by (simp add: a)
qed

lemma urlRegex_test_nonempty: "urlRegex_test u \<Longrightarrow> u \<noteq> []"
  by (auto simp: urlRegex_test_def)

lemma createLog_ok:
  assumes "urlRegex_test (trim u)"
  shows "createLog now u ldb
    = (None,
       \<lparr>log_id = fresh_log_id ldb, log_sourceWebsite = trim u, startTime = now,
        endTime = None, eventsFound = 0, eventsProcessed = 0, log_scrapingErrors = [],
        log_status = Running\<rparr>,
       ldb @ [\<lparr>log_id = fresh_log_id ldb, log_sourceWebsite = trim u, startTime = now,
        endTime = None, eventsFound = 0, eventsProcessed = 0, log_scrapingErrors = [],
        log_status = Running\<rparr>])"
  using assms urlRegex_test_nonempty [OF assms]
  by (simp add: createLog_def log_save_def validate_log_def log_pre_save_def)

lemma markCompleted_ok:
  assumes "validate_log l = []" "startTime l \<le> now"
  shows "\<exists>l' ldb'. markCompleted now (int n) (int n) l ldb = (None, l', ldb') \<and> done_log l'"
proof -
  let ?l = "l\<lparr>log_status := Completed, endTime := Some now, eventsFound := int n,
          eventsProcessed := int n\<rparr>"
  have v: "validate_log ?l = []"
    using assms by (auto simp: validate_log_def split: if_splits)
  have p: "log_pre_save now ?l = (None, ?l)"
    using assms by (simp add: log_pre_save_def)
  have d: "done_log ?l" using v assms by (simp add: done_log_def)
  show ?thesis unfolding markCompleted_def log_save_def v p using d by simp
qed

lemma sswsm_logs:
  "scrapingLogs (snd (scrapeSourceWithStatusManagement e s w)) = scrapingLogs w"
proof (cases "events (basic_result e s) = []")
  case True
  then show ?thesis by (simp add: scrapeSourceWithStatusManagement_def scrapeSource_returns)
next
  case False
  let ?p = "processScrapedEvents (clock e) (events (basic_result e s)) (name s) w"
  obtain r v where ep: "?p = (r, v)" by (cases ?p)
  have "v = w\<lparr>events_db := events_db v, statusChangeLogs := statusChangeLogs v\<rparr>"
    using ep by (rule processScrapedEvents_frame)
  then have "scrapingLogs v = scrapingLogs w"
    by (metis world.select_convs(3) world.surjective world.update_convs(1)
        world.update_convs(2))
  then show ?thesis using False ep
    by (simp add: scrapeSourceWithStatusManagement_def scrapeSource_returns split: sum.splits)
qed

lemma try_source_succeeds:
  assumes u: "urlRegex_test (trim (url s))"
  shows "\<exists>cd l w'. try_source e s w = (Inr (enhanced (basic_result e s) cd), Some l, w')"
proof -
  let ?l0 = "\<lparr>log_id = fresh_log_id (scrapingLogs w), log_sourceWebsite = trim (url s),
        startTime = clock e, endTime = None, eventsFound = 0, eventsProcessed = 0,
        log_scrapingErrors = [], log_status = Running\<rparr>"
  let ?w1 = "w\<lparr>scrapingLogs := scrapingLogs w @ [?l0]\<rparr>"
  have c: "createLog (clock e) (url s) (scrapingLogs w) = (None, ?l0, scrapingLogs w @ [?l0])"
    using u by (rule createLog_ok)
  obtain cd w2 where r: "scrapeSourceWithStatusManagement e s ?w1
            = (Inr (enhanced (basic_result e s) cd), w2)"
    using sswsm_result by blast
  have v0: "validate_log ?l0 = []"
    using u urlRegex_test_nonempty [OF u] by (simp add: validate_log_def)
  obtain l2 ldb2 where m: "markCompleted (clock e)
        (int (length (events (enhanced (basic_result e s) cd))))
        (int (length (events (enhanced (basic_result e s) cd)))) ?l0 (scrapingLogs w2)
          = (None, l2, ldb2)" and d: "done_log l2"
    using markCompleted_ok [OF v0, of "clock e"
        "length (events (enhanced (basic_result e s) cd))" "scrapingLogs w2"]
    by auto
  obtain l3 ldb3 where a: "add_errors (clock e)
        (map se_message (scrapingErrors (enhanced (basic_result e s) cd))) l2 ldb2
          = (None, l3, ldb3)"
    using add_errors_done [OF d] by blast
  show ?thesis unfolding try_source_def c by (auto simp: r m a)
qed

lemma down_fails: "fetch_or_extraction_fails example_env down_source"
  by (simp add: fetch_or_extraction_fails_def example_env_def down_source_def)

lemma down_result:
  "events (basic_result example_env down_source) = []"
  "length (scrapingErrors (basic_result example_env down_source)) = 1"
  using basic_result_failed [OF down_fails] by simp_all

lemma up_result:
  "length (events (basic_result example_env up_source)) = 3"
  "scrapingErrors (basic_result example_env up_source) = []"
  by (simp_all add: basic_result_def scrapeSource_def extractEvents_def example_env_def
      up_source_def)

lemma example_urls:
  "urlRegex_test (trim (url down_source))" "urlRegex_test (trim (url up_source))"
  by (simp_all add: down_source_def up_source_def trim_def is_space_def urlRegex_test_def)

text \<open>
  Claim C7 (two sources, the fetch of the first always fails, the second gives three
  events: the cycle result has \<open>successfulSources = 1\<close>, \<open>failedSources = 1\<close>,
  \<open>totalEvents = 3\<close>, \<open>totalErrors \<ge> 1\<close>), evaluated on \<open>example_scheduler\<close> in
  \<open>example_env\<close>: \<open>scrapeSource\<close> catches the error of the fetch and returns a result
  with no event and one error, so nothing is thrown into the \<open>catch\<close> block of
  \<open>orchestrateScrapingSources\<close>, and the cycle counts both sources as successful:
  \<open>successfulSources = 2\<close>, \<open>failedSources = 0\<close>.
\<close>

theorem failing_fetch_counted_as_success:
  "isl (axios_get example_env (url down_source))
   \<and> length (events (basic_result example_env up_source)) = 3
   \<and> (\<exists>r s' w'. executeScrapingCycle example_env example_scheduler empty_world = (r, s', w')
        \<and> totalSources r = 2 \<and> successfulSources r = 2 \<and> failedSources r = 0
        \<and> totalEvents r = 3 \<and> totalErrors r = 1
        \<and> map sr_success (sourceResults r) = [True, True])"
proof -
  obtain cd1 l1 w1 where t1: "try_source example_env down_source empty_world
      = (Inr (enhanced (basic_result example_env down_source) cd1), Some l1, w1)"
    using try_source_succeeds [OF example_urls(1)] by blast
  obtain cd2 l2 w2 where t2: "try_source example_env up_source w1
      = (Inr (enhanced (basic_result example_env up_source) cd2), Some l2, w2)"
    using try_source_succeeds [OF example_urls(2)] by blast
  have a: "isl (axios_get example_env (url down_source))"
    by (simp add: example_env_def down_source_def)
  have lp: "orchestrate_loop example_env [down_source, up_source]
                \<lparr>t_sourceResults = [], t_totalEvents = 0, t_totalErrors = 0,
                 t_successfulSources = 0\<rparr> empty_world
     = (Inr \<lparr>t_sourceResults =
               [\<lparr>sr_sourceName = name down_source, sr_success = True, sr_eventsFound = 0,
                 sr_errors = 1, sr_duration = 0\<rparr>,
                \<lparr>sr_sourceName = name up_source, sr_success = True, sr_eventsFound = 3,
                 sr_errors = 0, sr_duration = 0\<rparr>],
             t_totalEvents = 3, t_totalErrors = 1, t_successfulSources = 2\<rparr>, w2)"
    by (simp add: t1 t2 enhanced_def down_result up_result)
  have o: "orchestrateScrapingSources example_env [down_source, up_source] empty_world
     = (Inr \<lparr>totalSources = 2, successfulSources = 2, failedSources = 0, totalEvents = 3,
             totalErrors = 1, duration = 0, cycle_startTime = 1000, cycle_endTime = 1000,
             sourceResults =
               [\<lparr>sr_sourceName = name down_source, sr_success = True, sr_eventsFound = 0,
                 sr_errors = 1, sr_duration = 0\<rparr>,
                \<lparr>sr_sourceName = name up_source, sr_success = True, sr_eventsFound = 3,
                 sr_errors = 0, sr_duration = 0\<rparr>]\<rparr>, w2)"
    unfolding orchestrateScrapingSources_def lp by (simp add: example_env_def)
  have c: "\<exists>r s' w'. executeScrapingCycle example_env example_scheduler empty_world = (r, s', w')
        \<and> totalSources r = 2 \<and> successfulSources r = 2 \<and> failedSources r = 0
        \<and> totalEvents r = 3 \<and> totalErrors r = 1
        \<and> map sr_success (sourceResults r) = [True, True]"
    by (simp add: executeScrapingCycle_def cycle_enter_def example_scheduler_def
        idle_scheduler_def o cycle_settle_def)
  show ?thesis using a up_result(1) c by blast
qed

section \<open>One result per source\<close>

text \<open>
  Claim C9: for every list of sources, \<open>scrapeAll\<close> and \<open>scrapeAllResilient\<close> return
  (they throw nothing) one result per source, in the order of the list (the result at
  each position carries the URL of the source at that position); the result of a source
  whose fetch or extraction fails has no event and at least one error; and the other
  results do not depend on that source: a result of \<open>scrapeAll\<close> is the result of
  \<open>scrapeSource\<close> on its source alone, and taking a failing source out of the list leaves
  the results \<open>scrapeAllResilient\<close> returns for the sources before and after it, and the
  event store and status-change log it leaves, as they are.
\<close>

theorem scrape_all_isolates_sources:
  "(\<exists>rs. scrapeAll e sources = Inr rs
      \<and> list_all2 (\<lambda>s r. scrapeSource e s = Inr r \<and> sourceUrl r = url s
                     \<and> (if fetch_or_extraction_fails e s
                         then events r = [] \<and> scrapingErrors r \<noteq> [] else True))
           sources rs)
   \<and> (\<exists>rs w'. scrapeAllResilient e sources w = (Inr rs, w')
      \<and> list_all2 (\<lambda>s r. sourceUrl r = url s
                     \<and> (if fetch_or_extraction_fails e s
                         then events r = [] \<and> scrapingErrors r \<noteq> [] else True))
           sources rs)
   \<and> (fetch_or_extraction_fails e s \<longrightarrow>
       (\<exists>rx r ry wa wb.
          scrapeAllResilient e (xs @ s # ys) w = (Inr (rx @ r # ry), wa)
          \<and> scrapeAllResilient e (xs @ ys) w = (Inr (rx @ ry), wb)
          \<and> length rx = length xs
          \<and> events_db wa = events_db wb \<and> statusChangeLogs wa = statusChangeLogs wb))"
proof -
  have p: "list_all2 (\<lambda>s r. scrapeSource e s = Inr r \<and> sourceUrl r = url s
                     \<and> (if fetch_or_extraction_fails e s
                         then events r = [] \<and> scrapingErrors r \<noteq> [] else True))
           sources (map (basic_result e) sources)"
    by (induction sources) (auto simp: scrapeSource_returns basic_result_failed(1)
        dest: basic_result_failed(2))
  have a: "\<exists>rs. scrapeAll e sources = Inr rs
      \<and> list_all2 (\<lambda>s r. scrapeSource e s = Inr r \<and> sourceUrl r = url s
                     \<and> (if fetch_or_extraction_fails e s
                         then events r = [] \<and> scrapingErrors r \<noteq> [] else True))
           sources rs"
    using p by (simp add: scrapeAll_map)
  have b: "\<exists>rs w'. scrapeAllResilient e sources w = (Inr rs, w')
      \<and> list_all2 (\<lambda>s r. sourceUrl r = url s
                     \<and> (if fetch_or_extraction_fails e s
                         then events r = [] \<and> scrapingErrors r \<noteq> [] else True))
           sources rs"
  proof -
    obtain rs w' where l: "scrapeAllResilient_loop e sources [] w = (rs, w')"
      by (cases "scrapeAllResilient_loop e sources [] w")
    have r: "scrapeAllResilient e sources w = (Inr rs, w')"
      by (simp add: scrapeAllResilient_def l)
    show ?thesis using loop_results [of e sources w] unfolding r l by simp
  qed
  have c: "fetch_or_extraction_fails e s \<longrightarrow>
       (\<exists>rx r ry wa wb.
          scrapeAllResilient e (xs @ s # ys) w = (Inr (rx @ r # ry), wa)
          \<and> scrapeAllResilient e (xs @ ys) w = (Inr (rx @ ry), wb)
          \<and> length rx = length xs
          \<and> events_db wa = events_db wb \<and> statusChangeLogs wa = statusChangeLogs wb)"
    using removing_failed_source [of e s xs ys w] by blast
  show ?thesis using a b c by (intro conjI)
qed

theorem scrape_all_isolates_sources_witness:
  "(\<exists>rs. scrapeAll example_env [down_source, up_source] = Inr rs
      \<and> list_all2 (\<lambda>s r. scrapeSource example_env s = Inr r \<and> sourceUrl r = url s
                     \<and> (if fetch_or_extraction_fails example_env s
                         then events r = [] \<and> scrapingErrors r \<noteq> [] else True))
           [down_source, up_source] rs)
   \<and> (\<exists>rs w'. scrapeAllResilient example_env [down_source, up_source]
                  (empty_world :: ScrapingLog world) = (Inr rs, w')
      \<and> list_all2 (\<lambda>s r. sourceUrl r = url s
                     \<and> (if fetch_or_extraction_fails example_env s
                         then events r = [] \<and> scrapingErrors r \<noteq> [] else True))
           [down_source, up_source] rs)
   \<and> (\<exists>rx r ry wa wb.
          scrapeAllResilient example_env ([] @ down_source # [up_source])
             (empty_world :: ScrapingLog world) = (Inr (rx @ r # ry), wa)
          \<and> scrapeAllResilient example_env ([] @ [up_source])
                (empty_world :: ScrapingLog world) = (Inr (rx @ ry), wb)
          \<and> length rx = length ([] :: ScrapingSourceConfig list)
          \<and> events_db wa = events_db wb \<and> statusChangeLogs wa = statusChangeLogs wb)"
proof -
  note t = scrape_all_isolates_sources [of example_env "[down_source, up_source]"
      "empty_world :: ScrapingLog world" down_source "[]" "[up_source]"]
  show ?thesis
    by (intro conjI) (rule t [THEN conjunct1] t [THEN conjunct2, THEN conjunct1]
        t [THEN conjunct2, THEN conjunct2, THEN mp, OF down_fails])+
qed

end
